theory Spec2Isabelle
  imports Main "HOL-Library.AList"
begin

text \<open>
  A model of the forest cache (\<^verbatim>\<open>get-forest.ts\<close>), of the taxon abbreviations
  (\<^verbatim>\<open>utils.ts\<close>) and of the transclusion view (\<^verbatim>\<open>forestStructureView.ts\<close>) of the
  Forester extension, and the properties of them that are claimed of the code.

  Functions of the code are functions here, under their names. The fields of the
  module and of the provider are records, and a function that changes them returns
  the changed record. An exception is a value of the result. What the code asks of
  the editor, of Node and of the disk is an argument: the text of files, the parsed
  output of the query, the active editor's tree. Asynchronous functions are split at
  their \<^verbatim>\<open>await\<close>s, and the cache is a transition system over these pieces.
\<close>

section \<open>JavaScript strings and ordered containers\<close>

text \<open>
  Strings are lists of 8-bit characters: the code units below 256. Case conversion
  maps the letters A to Z and the capital letters from \<^verbatim>\<open>0xC0\<close> to \<^verbatim>\<open>0xDE\<close> (all of that
  range but the multiplication sign \<^verbatim>\<open>0xD7\<close>) to the letter 32 positions further; white
  space is the white space of the range below 256.
\<close>

definition upper_case :: string where
  "upper_case =
     ''ABCDEFGHIJKLMNOPQRSTUVWXYZ'' @
     [CHR 0xC0, CHR 0xC1, CHR 0xC2, CHR 0xC3, CHR 0xC4, CHR 0xC5, CHR 0xC6,
      CHR 0xC7, CHR 0xC8, CHR 0xC9, CHR 0xCA, CHR 0xCB, CHR 0xCC, CHR 0xCD,
      CHR 0xCE, CHR 0xCF, CHR 0xD0, CHR 0xD1, CHR 0xD2, CHR 0xD3, CHR 0xD4,
      CHR 0xD5, CHR 0xD6, CHR 0xD8, CHR 0xD9, CHR 0xDA, CHR 0xDB, CHR 0xDC,
      CHR 0xDD, CHR 0xDE]"

definition lower_case :: string where
  "lower_case =
     ''abcdefghijklmnopqrstuvwxyz'' @
     [CHR 0xE0, CHR 0xE1, CHR 0xE2, CHR 0xE3, CHR 0xE4, CHR 0xE5, CHR 0xE6,
      CHR 0xE7, CHR 0xE8, CHR 0xE9, CHR 0xEA, CHR 0xEB, CHR 0xEC, CHR 0xED,
      CHR 0xEE, CHR 0xEF, CHR 0xF0, CHR 0xF1, CHR 0xF2, CHR 0xF3, CHR 0xF4,
      CHR 0xF5, CHR 0xF6, CHR 0xF8, CHR 0xF9, CHR 0xFA, CHR 0xFB, CHR 0xFC,
      CHR 0xFD, CHR 0xFE]"

definition toLowerCase_char :: "char \<Rightarrow> char" where
  "toLowerCase_char c = (case map_of (zip upper_case lower_case) c of Some l \<Rightarrow> l | None \<Rightarrow> c)"

definition toLowerCase :: "string \<Rightarrow> string" where
  "toLowerCase s = map toLowerCase_char s"

definition startsWith :: "string \<Rightarrow> string \<Rightarrow> bool" where
  "startsWith s p = (take (length p) s = p)"

fun includes_str :: "string \<Rightarrow> string \<Rightarrow> bool" where
  "includes_str [] p = (p = [])"
| "includes_str (c # cs) p = (startsWith (c # cs) p \<or> includes_str cs p)"

definition is_space :: "char \<Rightarrow> bool" where
  "is_space c = (c \<in> set [CHR 0x09, CHR 0x0A, CHR 0x0B, CHR 0x0C, CHR 0x0D, CHR 0x20, CHR 0xA0])"

definition trimStart :: "string \<Rightarrow> string" where
  "trimStart s = dropWhile is_space s"

text \<open>\<^verbatim>\<open>content.split('\n')\<close>: the empty string gives one empty line.\<close>

fun split_lines :: "string \<Rightarrow> string list" where
  "split_lines [] = [[]]"
| "split_lines (c # cs) =
     (if c = CHR 0x0A then [] # split_lines cs
      else (case split_lines cs of
              l # ls \<Rightarrow> (c # l) # ls
            | [] \<Rightarrow> [[c]]))"

text \<open>
  A JavaScript \<^verbatim>\<open>Set<string>\<close> whose iteration order is read (\<^verbatim>\<open>Array.from\<close>) is a
  list without repetition in insertion order; \<^verbatim>\<open>add\<close> of a member changes nothing.
\<close>

definition set_add :: "string \<Rightarrow> string list \<Rightarrow> string list" where
  "set_add x xs = (if x \<in> set xs then xs else xs @ [x])"

text \<open>The truthiness of a \<^verbatim>\<open>string | null | undefined\<close>: null, undefined and the
  empty string are falsy.\<close>

definition truthy :: "string option \<Rightarrow> bool" where
  "truthy v = (case v of None \<Rightarrow> False | Some s \<Rightarrow> s \<noteq> [])"

section \<open>Forest data (get-forest.ts) and taxon abbreviations (utils.ts)\<close>

text \<open>
  The fields of a tree, as the code reads them: \<open>None\<close> is \<^verbatim>\<open>null\<close> or a field that is
  missing. The interface declares \<^verbatim>\<open>uri\<close> a string, and the code tests it all the same
  (\<^verbatim>\<open>!entry.uri\<close> in \<^verbatim>\<open>buildGraph\<close>, \<^verbatim>\<open>typeof tree.uri\<close> in \<^verbatim>\<open>getForestFromBuild\<close>),
  so it is optional here.
\<close>

record ForesterTree =
  title :: "string option"
  taxon :: "string option"
  tags :: "string list"
  route :: string
  metas :: "(string \<times> string) list"
  sourcePath :: string
  uri :: "string option"

type_synonym Forest = "ForesterTree list"

text \<open>The table of the built-in abbreviations, with the keys it lists.\<close>

definition TAXON_MAP :: "(string \<times> string) list" where
  "TAXON_MAP =
     [(''theorem'', ''thm''), (''definition'', ''def''), (''proposition'', ''prop''),
      (''lemma'', ''lem''), (''corollary'', ''cor''), (''example'', ''ex''),
      (''remark'', ''rem''), (''proof'', ''pf''), (''section'', ''sec''),
      (''chapter'', ''ch''), (''note'', ''note''), (''conjecture'', ''conj''),
      (''axiom'', ''ax''), (''construction'', ''const''), (''observation'', ''obs''),
      (''exercise'', ''exer''), (''problem'', ''prob''), (''solution'', ''soln''),
      (''algorithm'', ''alg''), (''discussion'', ''disc''), (''warning'', ''warn''),
      (''nota-bene'', ''nb''), (''appendix'', ''app''), (''explication'', ''expl''),
      (''figure'', ''fig'')]"

text \<open>
  The table is a plain object, and \<^verbatim>\<open>TAXON_MAP[lowerTaxon]\<close> reads a property of it:
  under a key that the table does not list, the object answers with the member of
  \<^verbatim>\<open>Object.prototype\<close> of that name, if there is one. So the value read is a string of
  the table or such a member, named here by its key. The members are functions, but
  for \<^verbatim>\<open>__proto__\<close>, which reads as the prototype object itself; all of them are truthy,
  and in a concatenation with a string they are converted as JavaScript prints them.
\<close>

definition Object_prototype :: "string list" where
  "Object_prototype =
     [''constructor'', ''__defineGetter__'', ''__defineSetter__'', ''hasOwnProperty'',
      ''__lookupGetter__'', ''__lookupSetter__'', ''isPrototypeOf'',
      ''propertyIsEnumerable'', ''toString'', ''valueOf'', ''__proto__'',
      ''toLocaleString'']"

datatype js_value = Str string | Member string

definition get_property :: "(string \<times> string) list \<Rightarrow> string \<Rightarrow> js_value option" where
  "get_property obj key =
     (case map_of obj key of
        Some v \<Rightarrow> Some (Str v)
      | None \<Rightarrow> if key \<in> set Object_prototype then Some (Member key) else None)"

definition js_truthy :: "js_value option \<Rightarrow> bool" where
  "js_truthy v = (case v of None \<Rightarrow> False | Some (Str s) \<Rightarrow> s \<noteq> [] | Some (Member k) \<Rightarrow> True)"

definition js_toString :: "js_value \<Rightarrow> string" where
  "js_toString v =
     (case v of
        Str s \<Rightarrow> s
      | Member k \<Rightarrow>
          if k = ''__proto__'' then ''[object Object]''
          else if k = ''constructor'' then ''function Object() { [native code] }''
          else ''function '' @ k @ ''() { [native code] }'')"

record taxon_custom =
  custom_emoji :: "string option"
  custom_abbreviation :: "string option"

text \<open>The setting \<^verbatim>\<open>forester.taxonCustomization\<close>, as \<^verbatim>\<open>Object.entries\<close> lists it.\<close>

type_synonym taxon_settings = "(string \<times> taxon_custom) list"

text \<open>
  \<^verbatim>\<open>getCustomTaxonConfig\<close> copies the setting into a new object under the lower-cased
  keys. The value read back under a key is the value last assigned under it, also
  under \<^verbatim>\<open>__proto__\<close>, where the assignment sets the prototype of the new object and the
  lookup reads it. Under a key that was not assigned the object answers with an
  inherited member, which has no \<^verbatim>\<open>abbreviation\<close>: for \<^verbatim>\<open>getTaxonAbbreviation\<close>, which
  reads only that field, the object is the map below.
\<close>

definition getCustomTaxonConfig :: "taxon_settings \<Rightarrow> (string \<rightharpoonup> taxon_custom)" where
  "getCustomTaxonConfig customTaxons =
     fold (\<lambda>(key, v) normalizedConfig. normalizedConfig(toLowerCase key \<mapsto> v))
       customTaxons Map.empty"

text \<open>\<^verbatim>\<open>getTaxonAbbreviation\<close>. Its result is declared a string; it is the value of
  the table where the third \<^verbatim>\<open>return\<close> is taken.\<close>

definition getTaxonAbbreviation :: "taxon_settings \<Rightarrow> string option \<Rightarrow> js_value" where
  "getTaxonAbbreviation customTaxons tx =
     (case tx of
        None \<Rightarrow> Str []
      | Some t \<Rightarrow>
          if t = [] then Str []
          else
            let lowerTaxon = toLowerCase t;
                custom = (case getCustomTaxonConfig customTaxons lowerTaxon of
                            None \<Rightarrow> None
                          | Some c \<Rightarrow> custom_abbreviation c)
            in if truthy custom then Str (the custom)
               else if js_truthy (get_property TAXON_MAP lowerTaxon)
                    then the (get_property TAXON_MAP lowerTaxon)
               else Str (toLowerCase (take 3 t)))"

section \<open>The transclusion graph (forestStructureView.ts)\<close>

text \<open>
  A \<^verbatim>\<open>TreeNode\<close> is the forest entry with its title replaced by the display title and
  with the two edge sets. The entry is kept as the field \<open>tree\<close>; \<open>nodeTitle\<close> is the
  node's \<^verbatim>\<open>title\<close>.
\<close>

record TreeNode =
  tree :: ForesterTree
  nodeTitle :: string
  transcludes :: "string list"
  transcludedBy :: "string list"

text \<open>\<^verbatim>\<open>Map<string, TreeNode>\<close>: keys in insertion order, \<^verbatim>\<open>set\<close> of a key that is
  present replaces the value in place (\<^const>\<open>AList.update\<close>).\<close>

type_synonym node_map = "(string \<times> TreeNode) list"

text \<open>The exceptions of the modelled code: the error of \<^verbatim>\<open>buildGraph\<close>, the error
  of \<^verbatim>\<open>getRoot\<close>, and the type errors and other errors of the run time; each with its
  message.\<close>

datatype js_error = Error string | FileSystemError string | TypeError string

text \<open>The test \<^verbatim>\<open>/(https?:\/\/)/.test(title)\<close>.\<close>

definition looksLikeUrl :: "string \<Rightarrow> bool" where
  "looksLikeUrl s = (includes_str s ''http://'' \<or> includes_str s ''https://'')"

text \<open>The body of the first loop of \<^verbatim>\<open>buildGraph\<close> for an entry whose uri is \<open>u\<close>.\<close>

definition makeNode :: "taxon_settings \<Rightarrow> ForesterTree \<Rightarrow> string \<Rightarrow> TreeNode" where
  "makeNode customTaxons entry u =
     (let taxonPrefix = getTaxonAbbreviation customTaxons (taxon entry);
          separator = (if js_truthy (Some taxonPrefix) then '': '' else []);
          ttl = (if \<not> truthy (title entry) \<or> looksLikeUrl (the (title entry))
                 then u else the (title entry))
      in \<lparr>tree = entry, nodeTitle = js_toString taxonPrefix @ separator @ ttl,
          transcludes = [], transcludedBy = []\<rparr>)"

text \<open>The first loop: it throws at the first entry whose uri is falsy, with the nodes
  set so far left in the map.\<close>

fun resolutionMap :: "taxon_settings \<Rightarrow> Forest \<Rightarrow> node_map \<Rightarrow> js_error option \<times> node_map" where
  "resolutionMap customTaxons [] ns = (None, ns)"
| "resolutionMap customTaxons (entry # rest) ns =
     (if \<not> truthy (uri entry) then (Some (Error ''Unexpected lack of uri''), ns)
      else resolutionMap customTaxons rest
             (AList.update (the (uri entry)) (makeNode customTaxons entry (the (uri entry))) ns))"


subsection \<open>Reading the transclusions of a tree's text\<close>

text \<open>
  A match of \<^verbatim>\<open>/\\transclude\{([^}]+)\}/\<close> at the start of \<open>s\<close>: the opening text, one or
  more characters other than the closing brace, and the closing brace. The result is
  the captured identifier and the text after the match.
\<close>

definition transclude_open :: string where
  "transclude_open = CHR 0x5C # ''transclude{''"

definition match_at :: "string \<Rightarrow> (string \<times> string) option" where
  "match_at s =
     (if startsWith s transclude_open then
        (let rest = drop (length transclude_open) s;
             arg = takeWhile (\<lambda>x. x \<noteq> CHR ''}'') rest;
             after = dropWhile (\<lambda>x. x \<noteq> CHR ''}'') rest
         in if arg \<noteq> [] \<and> after \<noteq> [] then Some (arg, tl after) else None)
      else None)"

lemma match_at_shorter: "match_at s = Some (arg, rest) \<Longrightarrow> length rest < length s"
proof -
  assume m: "match_at s = Some (arg, rest)"
  let ?r = "drop (length transclude_open) s"
  let ?a = "dropWhile (\<lambda>x. x \<noteq> CHR ''}'') ?r"
  from m have ne: "?a \<noteq> []" and r: "rest = tl ?a"
    by (auto simp: match_at_def Let_def split: if_splits)
  have "length ?a \<le> length ?r" by (rule length_dropWhile_le)
  moreover have "length ?r \<le> length s" by simp
  moreover from ne have "length (tl ?a) < length ?a" by (cases ?a) auto
  ultimately show ?thesis using r by simp
qed

text \<open>\<^verbatim>\<open>line.matchAll(...)\<close>: the matches from left to right, each search resuming after
  the previous match, or one character further where there is none.\<close>

function transcludeMatches :: "string \<Rightarrow> string list" where
  "transcludeMatches [] = []"
| "transcludeMatches (c # cs) =
     (case match_at (c # cs) of
        Some (arg, rest) \<Rightarrow> arg # transcludeMatches rest
      | None \<Rightarrow> transcludeMatches cs)"
  by pat_completeness auto
termination
  by (relation "measure length") (auto dest: match_at_shorter)

definition scanLine :: "string \<Rightarrow> string list" where
  "scanLine line = (if startsWith (trimStart line) ''%'' then [] else transcludeMatches line)"

definition scanContent :: "string \<Rightarrow> string list" where
  "scanContent content = concat (map scanLine (split_lines content))"

text \<open>One match in the text of the node \<open>u\<close>: an edge to \<open>targetId\<close> and its transpose,
  when \<open>targetId\<close> is a node. Nodes are shared objects of the map, so both updates are
  updates of the map's entries.\<close>

definition addTransclusion :: "string \<Rightarrow> string \<Rightarrow> node_map \<Rightarrow> node_map" where
  "addTransclusion u targetId ns =
     (case map_of ns targetId of
        None \<Rightarrow> ns
      | Some targetNode \<Rightarrow>
          AList.map_entry targetId (\<lambda>n. n\<lparr>transcludedBy := set_add u (transcludedBy n)\<rparr>)
            (AList.map_entry u (\<lambda>n. n\<lparr>transcludes := set_add targetId (transcludes n)\<rparr>) ns))"

text \<open>The second loop, over the entries the map had when the loop started.
  \<open>readFileSync\<close> is the file system: \<open>None\<close> where reading throws (the loop body
  catches it and goes on).\<close>

definition parseTransclusions :: "(string \<Rightarrow> string option) \<Rightarrow> node_map \<Rightarrow> node_map" where
  "parseTransclusions readFileSync ns =
     fold (\<lambda>(u, node) acc.
             case readFileSync (sourcePath (tree node)) of
               None \<Rightarrow> acc
             | Some content \<Rightarrow> fold (addTransclusion u) (scanContent content) acc)
       ns ns"

subsection \<open>Roots\<close>

text \<open>The loop of \<^verbatim>\<open>findRoot\<close>: \<open>visited\<close> and \<open>current\<close> are its two variables.\<close>

function findRoot_loop :: "node_map \<Rightarrow> string \<Rightarrow> string set \<Rightarrow> string \<Rightarrow> string" where
  "findRoot_loop ns treeId visited current =
     (if current \<in> visited then treeId
      else (case map_of ns current of
              None \<Rightarrow> current
            | Some currentNode \<Rightarrow>
                (case transcludedBy currentNode of
                   [] \<Rightarrow> current
                 | parent # others \<Rightarrow> findRoot_loop ns treeId (insert current visited) parent)))"
  by pat_completeness auto
termination
proof (relation "measure (\<lambda>(ns, treeId, visited, current). card (fst ` set ns - visited))")
  show "wf (measure (\<lambda>(ns, treeId, visited, current). card (fst ` set ns - visited)))"
    by simp
next
  fix ns :: node_map and treeId :: string and visited :: "string set" and current :: string
    and currentNode :: TreeNode and parent :: string and others :: "string list"
  assume nv: "current \<notin> visited" and look: "map_of ns current = Some currentNode"
  from look have "current \<in> fst ` set ns"
    by (metis map_of_SomeD fst_conv image_eqI)
  with nv have "fst ` set ns - insert current visited \<subset> fst ` set ns - visited"
    by blast
  then have "card (fst ` set ns - insert current visited) < card (fst ` set ns - visited)"
    by (intro psubset_card_mono) auto
  then show "((ns, treeId, insert current visited, parent), (ns, treeId, visited, current))
      \<in> measure (\<lambda>(ns, treeId, visited, current). card (fst ` set ns - visited))"
    by simp
qed

declare findRoot_loop.simps [simp del]

definition findRoot :: "node_map \<Rightarrow> string \<Rightarrow> string" where
  "findRoot ns treeId =
     (case map_of ns treeId of
        None \<Rightarrow> treeId
      | Some node \<Rightarrow>
          if transcludedBy node = [] then treeId
          else findRoot_loop ns treeId {} treeId)"


subsection \<open>The provider's state\<close>

text \<open>The view state persisted in the workspace (\<^verbatim>\<open>TreeViewState\<close>).\<close>

record TreeViewState =
  saved_expandedNodes :: "string list"
  saved_pinnedRootIds :: "string list"
  saved_focusMode :: bool
  saved_selectedNodeId :: "string option"

text \<open>
  The fields of \<^verbatim>\<open>ForesterWebviewProvider\<close>. \<open>expandedNodes\<close> is a set whose order
  is read only by \<^verbatim>\<open>saveState\<close>; \<open>workspaceState\<close> is the value stored under the
  provider's key; \<open>hasView\<close> says whether \<^verbatim>\<open>_view\<close> is set.
\<close>

record provider =
  nodes :: node_map
  expandedNodes :: "string list"
  currentRootIds :: "string list"
  pinnedRootIds :: "string list"
  focusMode :: bool
  initialLoad :: bool
  selectedNodeId :: "string option"
  workspaceState :: "TreeViewState option"
  hasView :: bool

definition MAX_PINNED_ROOTS :: nat where
  "MAX_PINNED_ROOTS = 10"

text \<open>
  The roots of \<^verbatim>\<open>buildGraph\<close>: the pinned roots, and the root of the active editor's
  tree. \<open>currentTreeId\<close> is the base name of the active editor's \<^verbatim>\<open>.tree\<close> file, if any.
\<close>

definition determineRoots :: "node_map \<Rightarrow> string list \<Rightarrow> string option \<Rightarrow> string list" where
  "determineRoots ns pinned currentTreeId =
     (if \<not> truthy currentTreeId then pinned
      else
        let t = the currentTreeId in
        if (case map_of ns t of None \<Rightarrow> False | Some node \<Rightarrow> transcludedBy node = [])
           \<and> t \<notin> set pinned
        then pinned @ [t]
        else
          let rootNode = findRoot ns t in
          if rootNode \<notin> set pinned then pinned @ [rootNode] else pinned)"

text \<open>The last step of \<^verbatim>\<open>buildGraph\<close>: on the first load without saved expansion,
  every root is expanded.\<close>

definition expandOnInitialLoad :: "provider \<Rightarrow> provider" where
  "expandOnInitialLoad p =
     (if initialLoad p then
        (if (case workspaceState p of
               None \<Rightarrow> True
             | Some savedState \<Rightarrow> saved_expandedNodes savedState = [])
         then p\<lparr>expandedNodes := fold set_add (currentRootIds p) (expandedNodes p)\<rparr>
         else p)\<lparr>initialLoad := False\<rparr>
      else p)"

text \<open>
  \<^verbatim>\<open>buildGraph\<close>, from the forest that \<^verbatim>\<open>getForest\<close> resolved to. The result is the
  exception thrown, if any, and the provider as the call leaves it.
\<close>

definition buildGraph ::
  "taxon_settings \<Rightarrow> (string \<Rightarrow> string option) \<Rightarrow> string option \<Rightarrow> Forest \<Rightarrow> provider
     \<Rightarrow> js_error option \<times> provider" where
  "buildGraph customTaxons readFileSync currentTreeId forestData p =
     (case resolutionMap customTaxons forestData [] of
        (Some e, ns) \<Rightarrow> (Some e, p\<lparr>nodes := ns\<rparr>)
      | (None, ns) \<Rightarrow>
          (let ns' = parseTransclusions readFileSync ns in
           (None, expandOnInitialLoad
                    (p\<lparr>nodes := ns',
                       currentRootIds := determineRoots ns' (pinnedRootIds p) currentTreeId\<rparr>))))"

subsection \<open>Rendering\<close>

text \<open>
  The HTML of \<^verbatim>\<open>_getTreeHtml\<close> is a sequence of \<^verbatim>\<open>div\<close> elements, one for each call
  of \<^verbatim>\<open>renderNode\<close> that finds its node. A row is such an element: the node, its
  depth (the padding), the text of its label, and its classes and buttons.
\<close>

datatype row =
  is_cycle: CycleRow (row_id: string) (row_depth: nat) (row_label: string)
| TreeRow (row_id: string) (row_depth: nat) (row_label: string)
    (row_selected: bool) (row_hasChildren: bool) (row_expanded: bool)
    (row_pinned: "bool option")

definition titleOr :: "TreeNode \<Rightarrow> string \<Rightarrow> string" where
  "titleOr node nodeId = (if nodeTitle node \<noteq> [] then nodeTitle node else nodeId)"

function renderNode :: "provider \<Rightarrow> string \<Rightarrow> nat \<Rightarrow> string set \<Rightarrow> row list" where
  "renderNode p nodeId depth visited =
     (case map_of (nodes p) nodeId of
        None \<Rightarrow> []
      | Some node \<Rightarrow>
          if nodeId \<in> visited then [CycleRow nodeId depth (titleOr node nodeId)]
          else
            TreeRow nodeId depth (toLowerCase (titleOr node nodeId))
              (selectedNodeId p = Some nodeId)
              (transcludes node \<noteq> [])
              (nodeId \<in> set (expandedNodes p))
              (if depth = 0 then Some (nodeId \<in> set (pinnedRootIds p)) else None)
            # (if transcludes node \<noteq> [] \<and> nodeId \<in> set (expandedNodes p)
               then concat (map (\<lambda>childId. renderNode p childId (depth + 1) (insert nodeId visited))
                              (transcludes node))
               else []))"
  by pat_completeness auto
termination
proof (relation "measure (\<lambda>(p, nodeId, depth, visited). card (fst ` set (nodes p) - visited))")
  show "wf (measure (\<lambda>(p, nodeId, depth, visited). card (fst ` set (nodes p) - visited)))"
    by simp
next
  fix p :: provider and nodeId :: string and depth :: nat and visited :: "string set"
    and node :: TreeNode and childId :: string
  assume look: "map_of (nodes p) nodeId = Some node" and nv: "nodeId \<notin> visited"
  from look have "nodeId \<in> fst ` set (nodes p)"
    by (metis map_of_SomeD fst_conv image_eqI)
  with nv have "fst ` set (nodes p) - insert nodeId visited \<subset> fst ` set (nodes p) - visited"
    by blast
  then have "card (fst ` set (nodes p) - insert nodeId visited)
      < card (fst ` set (nodes p) - visited)"
    by (intro psubset_card_mono) auto
  then show "((p, childId, depth + 1, insert nodeId visited), (p, nodeId, depth, visited))
      \<in> measure (\<lambda>(p, nodeId, depth, visited). card (fst ` set (nodes p) - visited))"
    by simp
qed

declare renderNode.simps [simp del]

text \<open>\<^verbatim>\<open>_getTreeHtml\<close>: \<open>None\<close> is the message shown when there is no root; each root
  is rendered at depth 0 with a new visited set.\<close>

definition getTreeHtml :: "provider \<Rightarrow> row list option" where
  "getTreeHtml p =
     (if currentRootIds p = [] then None
      else Some (concat (map (\<lambda>rootId. renderNode p rootId 0 {}) (currentRootIds p))))"


subsection \<open>Containment and the root of an interaction\<close>

text \<open>
  \<^verbatim>\<open>nodeContainsChild\<close> searches depth first with one visited set shared by the whole
  search: the set is passed on by reference, so a call returns it as it has left it.
  \<open>containsAny\<close> is the loop over the children.
\<close>

function nodeContainsChild :: "node_map \<Rightarrow> string \<Rightarrow> string \<Rightarrow> string set \<Rightarrow> bool \<times> string set"
  and containsAny :: "node_map \<Rightarrow> string list \<Rightarrow> string \<Rightarrow> string set \<Rightarrow> bool \<times> string set"
where
  "nodeContainsChild ns parentId targetId visited =
     (if parentId = targetId then (True, visited)
      else if parentId \<in> visited then (False, visited)
      else (case map_of ns parentId of
              None \<Rightarrow> (False, insert parentId visited)
            | Some parent \<Rightarrow> containsAny ns (transcludes parent) targetId (insert parentId visited)))"
| "containsAny ns [] targetId visited = (False, visited)"
| "containsAny ns (childId # rest) targetId visited =
     (case nodeContainsChild ns childId targetId visited of
        (True, visited') \<Rightarrow> (True, visited')
      | (False, visited') \<Rightarrow> containsAny ns rest targetId visited')"
  by pat_completeness auto

lemma visited_grows:
  "nodeContainsChild_containsAny_dom (Inl (ns, parentId, targetId, visited)) \<Longrightarrow>
     visited \<subseteq> snd (nodeContainsChild ns parentId targetId visited)"
  "nodeContainsChild_containsAny_dom (Inr (ns, children, targetId, visited)) \<Longrightarrow>
     visited \<subseteq> snd (containsAny ns children targetId visited)"
proof (induction ns parentId targetId visited and ns children targetId visited
    rule: nodeContainsChild_containsAny.pinduct)
  case (1 ns parentId targetId visited)
  then show ?case
    by (auto simp: nodeContainsChild.psimps split: option.splits)
next
  case (2 ns targetId visited)
  then show ?case by (simp add: containsAny.psimps)
next
  case (3 ns childId rest targetId visited)
  obtain b v where r: "nodeContainsChild ns childId targetId visited = (b, v)"
    by (cases "nodeContainsChild ns childId targetId visited")
  from 3(2) r have sub: "visited \<subseteq> v" by simp
  show ?case
  proof (cases b)
    case True
    with r sub 3(1) show ?thesis by (simp add: containsAny.psimps)
  next
    case False
    with 3(3)[of b v] r have "v \<subseteq> snd (containsAny ns rest targetId v)" by simp
    with False r sub 3(1) show ?thesis by (auto simp: containsAny.psimps)
  qed
qed

termination nodeContainsChild
proof (relation
    "(\<lambda>x. case x of
            Inl (ns, parentId, targetId, visited) \<Rightarrow> card (fst ` set ns - visited)
          | Inr (ns, children, targetId, visited) \<Rightarrow> card (fst ` set ns - visited))
     <*mlex*>
     measure (\<lambda>x. case x of
                     Inl (ns, parentId, targetId, visited) \<Rightarrow> 0
                   | Inr (ns, children, targetId, visited) \<Rightarrow> Suc (length children))",
    goal_cases)
  case 1
  then show ?case by (simp add: wf_mlex)
next
  case (2 ns parentId targetId visited x2)
  from 2(3) have "parentId \<in> fst ` set ns"
    by (metis map_of_SomeD fst_conv image_eqI)
  with 2(2) have "fst ` set ns - insert parentId visited \<subset> fst ` set ns - visited"
    by blast
  then have "card (fst ` set ns - insert parentId visited) < card (fst ` set ns - visited)"
    by (intro psubset_card_mono) auto
  then show ?case by (simp add: mlex_less)
next
  case (3 ns childId rest targetId visited)
  then show ?case by (simp add: mlex_leq)
next
  case (4 ns childId rest targetId visited x y)
  then have dom: "nodeContainsChild_containsAny_dom (Inl (ns, childId, targetId, visited))"
    and eq: "nodeContainsChild ns childId targetId visited = (False, y)"
    by simp_all
  from visited_grows(1)[OF dom] eq have "visited \<subseteq> y" by simp
  then have "fst ` set ns - y \<subseteq> fst ` set ns - visited" by blast
  then have "card (fst ` set ns - y) \<le> card (fst ` set ns - visited)"
    by (intro card_mono) auto
  then show ?case by (simp add: mlex_leq)
qed

declare nodeContainsChild.simps [simp del]

definition findRootForNode :: "provider \<Rightarrow> string \<Rightarrow> string option" where
  "findRootForNode p nodeId =
     (if nodeId \<in> set (currentRootIds p) then Some nodeId
      else find (\<lambda>rootId. fst (nodeContainsChild (nodes p) rootId nodeId {}))
             (currentRootIds p))"

subsection \<open>Messages of the webview and commands\<close>

text \<open>What a handler asks of the editor, in the order of the calls.\<close>

datatype effect =
  OpenFile string
| SetContextPinned bool
| ShowWarningMessage string
| ShowInformationMessage string
| PostUpdate "row list option"
| Refresh
| RenameTree string

definition saveState :: "provider \<Rightarrow> provider" where
  "saveState p =
     p\<lparr>workspaceState :=
         Some \<lparr>saved_expandedNodes = expandedNodes p,
               saved_pinnedRootIds = pinnedRootIds p,
               saved_focusMode = focusMode p,
               saved_selectedNodeId = selectedNodeId p\<rparr>\<rparr>"

definition postUpdate :: "provider \<Rightarrow> effect list" where
  "postUpdate p = (if hasView p then [PostUpdate (getTreeHtml p)] else [])"

definition autoPinOnInteraction :: "string \<Rightarrow> provider \<Rightarrow> effect list \<times> provider" where
  "autoPinOnInteraction nodeId p =
     (case findRootForNode p nodeId of
        None \<Rightarrow> ([], p)
      | Some root \<Rightarrow>
          if root \<noteq> [] \<and> root \<notin> set (pinnedRootIds p)
          then ([SetContextPinned True],
                p\<lparr>pinnedRootIds := pinnedRootIds p @ [root],
                  expandedNodes := set_add root (expandedNodes p)\<rparr>)
          else ([], p))"

text \<open>The message \<^verbatim>\<open>toggle\<close>.\<close>

definition onToggle :: "string \<Rightarrow> provider \<Rightarrow> effect list \<times> provider" where
  "onToggle nodeId p =
     (let p1 = (if nodeId \<in> set (expandedNodes p)
                then p\<lparr>expandedNodes := removeAll nodeId (expandedNodes p)\<rparr>
                else p\<lparr>expandedNodes := expandedNodes p @ [nodeId]\<rparr>);
          (es, p2) = autoPinOnInteraction nodeId p1;
          p3 = saveState p2
      in (es @ postUpdate p3, p3))"

text \<open>The message \<^verbatim>\<open>openFile\<close>.\<close>

definition onOpenFile :: "string \<Rightarrow> provider \<Rightarrow> effect list \<times> provider" where
  "onOpenFile nodeId p =
     (let node = map_of (nodes p) nodeId;
          es1 = (case node of
                   None \<Rightarrow> []
                 | Some n \<Rightarrow> if sourcePath (tree n) \<noteq> [] then [OpenFile (sourcePath (tree n))] else []);
          p1 = (case node of
                  None \<Rightarrow> p
                | Some n \<Rightarrow> if transcludes n \<noteq> []
                            then p\<lparr>expandedNodes := set_add nodeId (expandedNodes p)\<rparr>
                            else p);
          p2 = p1\<lparr>selectedNodeId := Some nodeId\<rparr>;
          (es2, p3) = autoPinOnInteraction nodeId p2;
          p4 = saveState p3
      in (es1 @ es2 @ postUpdate p4, p4))"

text \<open>The message \<^verbatim>\<open>togglePin\<close>. The warning is the report of the limit;
  \<^verbatim>\<open>refresh\<close> is started and runs on after \<^verbatim>\<open>getForest\<close> resolves.\<close>

definition onTogglePin :: "string \<Rightarrow> provider \<Rightarrow> effect list \<times> provider" where
  "onTogglePin nodeId p =
     (let (es, p1) =
            (if nodeId \<in> set (pinnedRootIds p) then
               (let pinned = filter (\<lambda>i. i \<noteq> nodeId) (pinnedRootIds p)
                in ([SetContextPinned (pinned \<noteq> [])], p\<lparr>pinnedRootIds := pinned\<rparr>))
             else if length (pinnedRootIds p) \<ge> MAX_PINNED_ROOTS then
               ([ShowWarningMessage ''Cannot pin more than 10 roots''], p)
             else
               ([SetContextPinned True],
                p\<lparr>pinnedRootIds := pinnedRootIds p @ [nodeId],
                  expandedNodes := set_add nodeId (expandedNodes p)\<rparr>));
          p2 = saveState p1
      in (es @ [Refresh], p2))"

text \<open>The command \<^verbatim>\<open>pinToCurrentFile\<close>; \<open>editorTreeId\<close> is the base name of the active
  editor's \<^verbatim>\<open>.tree\<close> file, if there is one.\<close>

definition pinToCurrentFile :: "string option \<Rightarrow> provider \<Rightarrow> effect list \<times> provider" where
  "pinToCurrentFile editorTreeId p =
     (case editorTreeId of
        None \<Rightarrow> ([], p)
      | Some treeId \<Rightarrow>
          (case map_of (nodes p) treeId of
             None \<Rightarrow> ([ShowWarningMessage ''Tree not found in forest''], p)
           | Some node \<Rightarrow>
               (let rootId = (if transcludedBy node \<noteq> [] then findRoot (nodes p) treeId else treeId)
                in if rootId \<noteq> [] \<and> rootId \<notin> set (pinnedRootIds p) then
                     (let p1 = saveState
                                 (p\<lparr>pinnedRootIds := pinnedRootIds p @ [rootId],
                                    expandedNodes := set_add rootId (expandedNodes p)\<rparr>)
                      in ([Refresh,
                           ShowInformationMessage
                             (''Pinned: '' @ (case map_of (nodes p1) rootId of
                                                None \<Rightarrow> rootId
                                              | Some r \<Rightarrow> titleOr r rootId))],
                          p1))
                   else ([], p))))"

text \<open>The command \<^verbatim>\<open>unpin\<close> removes the last pinned root.\<close>

definition unpin :: "provider \<Rightarrow> effect list \<times> provider" where
  "unpin p =
     (if pinnedRootIds p \<noteq> [] then
        (let unpinned = last (pinnedRootIds p);
             p1 = saveState (p\<lparr>pinnedRootIds := butlast (pinnedRootIds p)\<rparr>)
         in ([Refresh, ShowInformationMessage (''Unpinned: '' @ unpinned)], p1))
      else ([], p))"

subsection \<open>Revealing a node\<close>

text \<open>
  \<^verbatim>\<open>findPath\<close> calls itself for every parent of the target with no record of the
  nodes it is already searching for. The first argument bounds the depth of the calls:
  \<open>None\<close> is a search that is still descending at that depth. \<open>findPathIn\<close> is the loop
  over the entries of the node map.
\<close>

fun findPath :: "nat \<Rightarrow> provider \<Rightarrow> string \<Rightarrow> string list option"
  and findPathIn :: "nat \<Rightarrow> provider \<Rightarrow> node_map \<Rightarrow> string \<Rightarrow> string list option"
where
  "findPath 0 p targetId = None"
| "findPath (Suc k) p targetId =
     (if targetId \<in> set (currentRootIds p) then Some [targetId]
      else findPathIn k p (nodes p) targetId)"
| "findPathIn k p [] targetId = Some []"
| "findPathIn k p ((parentId, parentNode) # rest) targetId =
     (if targetId \<in> set (transcludes parentNode) then
        (case findPath k p parentId of
           None \<Rightarrow> None
         | Some parentPath \<Rightarrow>
             if parentPath \<noteq> [] then Some (parentPath @ [targetId])
             else findPathIn k p rest targetId)
      else findPathIn k p rest targetId)"

text \<open>\<^verbatim>\<open>revealNode\<close>: the nodes of the path but the last are expanded.\<close>

definition revealNode :: "nat \<Rightarrow> string \<Rightarrow> provider \<Rightarrow> provider option" where
  "revealNode k nodeId p =
     (case findPath k p nodeId of
        None \<Rightarrow> None
      | Some path \<Rightarrow> Some (p\<lparr>expandedNodes := fold set_add (butlast path) (expandedNodes p)\<rparr>))"

subsection \<open>The walk of \<^verbatim>\<open>findRoot\<close>, for stating its properties\<close>

text \<open>The loop of \<^verbatim>\<open>findRoot\<close> with a bound on the number of its iterations:
  \<open>None\<close> when the bound is used up before the loop returns.\<close>

fun findRoot_within :: "nat \<Rightarrow> node_map \<Rightarrow> string \<Rightarrow> string set \<Rightarrow> string \<Rightarrow> string option" where
  "findRoot_within 0 ns treeId visited current = None"
| "findRoot_within (Suc k) ns treeId visited current =
     (if current \<in> visited then Some treeId
      else (case map_of ns current of
              None \<Rightarrow> Some current
            | Some currentNode \<Rightarrow>
                (case transcludedBy currentNode of
                   [] \<Rightarrow> Some current
                 | parent # others \<Rightarrow> findRoot_within k ns treeId (insert current visited) parent)))"

text \<open>\<^verbatim>\<open>Array.from(currentNode.transcludedBy)[0]\<close>, where the node exists and has a
  parent.\<close>

definition firstParent :: "node_map \<Rightarrow> string \<Rightarrow> string option" where
  "firstParent ns c =
     (case map_of ns c of
        None \<Rightarrow> None
      | Some n \<Rightarrow> (case transcludedBy n of [] \<Rightarrow> None | parent # others \<Rightarrow> Some parent))"

text \<open>The ancestor chain of \<open>t\<close>: its \<open>k\<close>-th node, while the chain goes on.\<close>

fun walk :: "node_map \<Rightarrow> string \<Rightarrow> nat \<Rightarrow> string option" where
  "walk ns t 0 = Some t"
| "walk ns t (Suc k) = (case walk ns t k of None \<Rightarrow> None | Some c \<Rightarrow> firstParent ns c)"

text \<open>The edges of the graph: \<open>x\<close> transcludes \<open>y\<close>.\<close>

definition transcludes_rel :: "node_map \<Rightarrow> (string \<times> string) set" where
  "transcludes_rel ns = {(x, y). \<exists>n. map_of ns x = Some n \<and> y \<in> set (transcludes n)}"

text \<open>What a node keeps of its tree while the transclusions are read.\<close>

definition static_part :: "TreeNode \<Rightarrow> ForesterTree \<times> string" where
  "static_part n = (tree n, nodeTitle n)"

subsection \<open>Example graphs\<close>

definition plain_tree :: "string \<Rightarrow> ForesterTree" where
  "plain_tree u =
     \<lparr>title = Some u, taxon = None, tags = [], route = [], metas = [],
      sourcePath = u @ ''.tree'', uri = Some u\<rparr>"

definition graph_node :: "string \<Rightarrow> string list \<Rightarrow> string list \<Rightarrow> TreeNode" where
  "graph_node u outs ins =
     \<lparr>tree = plain_tree u, nodeTitle = u, transcludes = outs, transcludedBy = ins\<rparr>"

text \<open>The trees A, B and C transclude each other in a cycle; D transcludes A and is
  transcluded by no tree.\<close>

definition cycle_nodes :: node_map where
  "cycle_nodes =
     [(''A'', graph_node ''A'' [''B''] [''C'', ''D'']),
      (''B'', graph_node ''B'' [''C''] [''A'']),
      (''C'', graph_node ''C'' [''A''] [''B'']),
      (''D'', graph_node ''D'' [''A''] [])]"

text \<open>A provider over the example graph with the given pinned roots and roots.\<close>

definition example_provider :: "string list \<Rightarrow> string list \<Rightarrow> provider" where
  "example_provider pinned roots =
     \<lparr>nodes = cycle_nodes, expandedNodes = [], currentRootIds = roots,
      pinnedRootIds = pinned, focusMode = False, initialLoad = False,
      selectedNodeId = None, workspaceState = None, hasView = True\<rparr>"

definition nine_roots :: "string list" where
  "nine_roots = [''r1'', ''r2'', ''r3'', ''r4'', ''r5'', ''r6'', ''r7'', ''r8'', ''r9'']"

definition ten_roots :: "string list" where
  "ten_roots = nine_roots @ [''A'']"

text \<open>The forest of three trees whose texts transclude B from A, C from B and A
  from C, and a provider that has not loaded yet.\<close>

definition cycle_forest :: Forest where
  "cycle_forest = [plain_tree ''A'', plain_tree ''B'', plain_tree ''C'']"

definition cycle_files :: "string \<Rightarrow> string option" where
  "cycle_files path =
     map_of [(''A.tree'', CHR 0x5C # ''transclude{B}''),
             (''B.tree'', CHR 0x5C # ''transclude{C}''),
             (''C.tree'', CHR 0x5C # ''transclude{A}'')] path"

definition initial_provider :: provider where
  "initial_provider =
     \<lparr>nodes = [], expandedNodes = [], currentRootIds = [], pinnedRootIds = [],
      focusMode = False, initialLoad = True, selectedNodeId = None,
      workspaceState = None, hasView = True\<rparr>"

text \<open>The provider after the graph of the cycle is built with A in the editor, and B
  and C are then expanded by the message \<^verbatim>\<open>toggle\<close>.\<close>

definition cycle_view :: provider where
  "cycle_view =
     snd (onToggle ''C''
       (snd (onToggle ''B''
          (snd (buildGraph [] cycle_files (Some ''A'') cycle_forest initial_provider)))))"

text \<open>A graph in which D is transcluded by both B and C, which A transcludes, and
  also by the second root E.\<close>

definition diamond_view :: provider where
  "diamond_view =
     \<lparr>nodes =
        [(''A'', graph_node ''A'' [''B'', ''C''] []),
         (''B'', graph_node ''B'' [''D''] [''A'']),
         (''C'', graph_node ''C'' [''D''] [''A'']),
         (''D'', graph_node ''D'' [] [''B'', ''C'', ''E'']),
         (''E'', graph_node ''E'' [''D''] [])],
      expandedNodes = [''A'', ''B'', ''C'', ''E''], currentRootIds = [''A'', ''E''],
      pinnedRootIds = [''A''], focusMode = False, initialLoad = False,
      selectedNodeId = None, workspaceState = None, hasView = True\<rparr>"

text \<open>A tree whose title is the empty string, and a tree whose taxon is.\<close>

definition empty_title_tree :: ForesterTree where
  "empty_title_tree =
     \<lparr>title = Some [], taxon = None, tags = [], route = [], metas = [],
      sourcePath = ''a.tree'', uri = Some ''a''\<rparr>"

definition empty_taxon_tree :: ForesterTree where
  "empty_taxon_tree =
     \<lparr>title = Some ''T'', taxon = Some [], tags = [], route = [], metas = [],
      sourcePath = ''b.tree'', uri = Some ''b''\<rparr>"

text \<open>A tree with a title and no taxon; and a tree whose taxon, in lower case,
  names a member of \<^verbatim>\<open>Object.prototype\<close>.\<close>

definition titled_tree :: "string \<Rightarrow> string \<Rightarrow> ForesterTree" where
  "titled_tree u t =
     \<lparr>title = Some t, taxon = None, tags = [], route = [], metas = [],
      sourcePath = u @ ''.tree'', uri = Some u\<rparr>"

definition constructor_tree :: ForesterTree where
  "constructor_tree =
     \<lparr>title = Some ''X'', taxon = Some ''Constructor'', tags = [], route = [], metas = [],
      sourcePath = ''c.tree'', uri = Some ''c''\<rparr>"

text \<open>A tree whose uri is the empty string.\<close>

definition empty_uri_tree :: ForesterTree where
  "empty_uri_tree =
     \<lparr>title = Some ''Untitled'', taxon = None, tags = [], route = [], metas = [],
      sourcePath = ''x.tree'', uri = Some []\<rparr>"

text \<open>The forest of the specification's scenario: the theorem a with the title Intro,
  whose text transcludes b, and b with the title Lemma 1.\<close>

definition scenario_forest :: Forest where
  "scenario_forest =
     [\<lparr>title = Some ''Intro'', taxon = Some ''theorem'', tags = [], route = [], metas = [],
       sourcePath = ''a.tree'', uri = Some ''a''\<rparr>,
      \<lparr>title = Some ''Lemma 1'', taxon = None, tags = [], route = [], metas = [],
       sourcePath = ''b.tree'', uri = Some ''b''\<rparr>]"

definition scenario_files :: "string \<Rightarrow> string option" where
  "scenario_files path =
     map_of [(''a.tree'', CHR 0x5C # ''transclude{b}''), (''b.tree'', ''text'')] path"

section \<open>The forest cache (get-forest.ts)\<close>

subsection \<open>The environment of a query\<close>

text \<open>
  Which of the three handlers of \<^verbatim>\<open>queryForest\<close> resolves its promise: the timer of
  30 seconds, the \<^verbatim>\<open>error\<close> event with the error's message, or the \<^verbatim>\<open>close\<close> event with
  the exit code and the signal; and the output the child process has written by then.
\<close>

datatype child_event =
  TimedOut
| ProcessError string
| Closed "nat option" "string option"

record query_outcome =
  child :: child_event
  stdout :: string
  stderr :: string

text \<open>
  A value of \<^verbatim>\<open>JSON.parse\<close>. An array is the array of trees of the new query format.
  An object is the object of the old one, given by its entries in the order of
  \<^verbatim>\<open>Object.entries\<close>: each is an identifier with a tree without its uri. The elements
  are taken at the type the code declares, and in an array an element whose \<^verbatim>\<open>uri\<close>
  is not a string has the uri \<open>None\<close>. The other values are \<^verbatim>\<open>null\<close>, a number or a
  boolean, and a string.
\<close>

record tree_body =
  body_title :: "string option"
  body_taxon :: "string option"
  body_tags :: "string list"
  body_route :: string
  body_metas :: "(string \<times> string) list"
  body_sourcePath :: string

datatype query_json =
  NewFormat Forest
| OldFormat "(string \<times> tree_body) list"
| JsonNull
| JsonPrimitive
| JsonString string

text \<open>
  What the cache reads of the editor, of Node and of the disk: the paths of the
  workspace folders, the settings \<^verbatim>\<open>forester.path\<close> and \<^verbatim>\<open>forester.config\<close> (\<open>None\<close>
  where \<^verbatim>\<open>config.get\<close> gives \<^verbatim>\<open>undefined\<close>), the exception that starting a child process
  throws, if any, \<^verbatim>\<open>JSON.parse\<close> (\<open>None\<close> where it throws), \<^verbatim>\<open>existsSync\<close>, \<^verbatim>\<open>readFile\<close>
  (\<open>None\<close> where it fails) and \<^verbatim>\<open>path.join\<close> of three parts.
\<close>

record env =
  workspaceFolders :: "string list"
  forester_path :: "string option"
  forester_config :: "string option"
  spawn_error :: "string \<Rightarrow> string list \<Rightarrow> string \<Rightarrow> js_error option"
  JSON_parse :: "string \<Rightarrow> query_json option"
  existsSync :: "string \<Rightarrow> bool"
  readFile :: "string \<Rightarrow> string option"
  path_join :: "string \<Rightarrow> string \<Rightarrow> string \<Rightarrow> string"

definition getRoot :: "env \<Rightarrow> js_error + string" where
  "getRoot e =
     (case workspaceFolders e of
        [] \<Rightarrow> Inl (FileSystemError
                 (''vscode-forester doesn'' @ [CHR 0x27] @ ''t support opening a single file.''))
      | folder # others \<Rightarrow> Inr folder)"

text \<open>
  \<^verbatim>\<open>child_process.spawn\<close> with the handlers that \<^verbatim>\<open>queryForest\<close> attaches to the new
  process, up to the exception thrown while doing so. Node throws a type error for a
  command that is the empty string; what else it throws there (and not later, as the
  \<^verbatim>\<open>error\<close> event of the process) is the environment's.
\<close>

definition spawn :: "env \<Rightarrow> string \<Rightarrow> string list \<Rightarrow> string \<Rightarrow> js_error option" where
  "spawn e file args cwd =
     (if file = []
      then Some (TypeError (''The argument '' @ [CHR 0x27] @ ''file'' @ [CHR 0x27]
                            @ '' cannot be empty. Received '' @ [CHR 0x27, CHR 0x27]))
      else spawn_error e file args cwd)"

text \<open>\<^verbatim>\<open>getForestFromBuild\<close>: every exception inside it is caught and gives
  \<^verbatim>\<open>null\<close>; a parsed value that is not an array gives \<^verbatim>\<open>null\<close> as well.\<close>

definition getForestFromBuild :: "env \<Rightarrow> Forest option" where
  "getForestFromBuild e =
     (case getRoot e of
        Inl err \<Rightarrow> None
      | Inr root \<Rightarrow>
          (let outputPath = path_join e root ''output'' ''forest.json'' in
           if \<not> existsSync e outputPath then None
           else (case readFile e outputPath of
                   None \<Rightarrow> None
                 | Some content \<Rightarrow>
                     (case JSON_parse e content of
                        Some (NewFormat data) \<Rightarrow>
                          if list_all (\<lambda>t. uri t \<noteq> None) data then Some data else None
                      | _ \<Rightarrow> None))))"

subsection \<open>The cells of the cache\<close>

record forest_status =
  valid :: "bool option"
  updating :: "bool option"
  error :: "string option"

text \<open>The module's variables. A promise of \<^verbatim>\<open>queryForest\<close> is named by the number of
  the call that made it.\<close>

record cache =
  queryInProgressPromise :: "nat option"
  mostRecentQueryResult :: "Forest option"
  isInitialLoad :: bool
  forestStatus :: forest_status

definition updateStatusBar :: "forest_status \<Rightarrow> 'a cache_scheme \<Rightarrow> 'a cache_scheme" where
  "updateStatusBar status c = c\<lparr>forestStatus := status\<rparr>"

subsection \<open>\<^verbatim>\<open>queryForest\<close>\<close>

text \<open>A number in decimal, and \<^verbatim>\<open>null\<close>, as a template string prints them.\<close>

fun show_nat :: "nat \<Rightarrow> string" where
  "show_nat n =
     (if n < 10 then [''0123456789'' ! n]
      else show_nat (n div 10) @ [''0123456789'' ! (n mod 10)])"

declare show_nat.simps [simp del]

definition show_code :: "nat option \<Rightarrow> string" where
  "show_code code = (case code of None \<Rightarrow> ''null'' | Some n \<Rightarrow> show_nat n)"

definition show_signal :: "string option \<Rightarrow> string" where
  "show_signal signal = (case signal of None \<Rightarrow> ''null'' | Some s \<Rightarrow> s)"

text \<open>The pair \<^verbatim>\<open>[success, dataOrErrorMessage]\<close> the promise resolves to.\<close>

datatype resolution = Success query_json | Failure string

definition resolve_outcome :: "env \<Rightarrow> query_outcome \<Rightarrow> resolution" where
  "resolve_outcome e out =
     (case child out of
        TimedOut \<Rightarrow> Failure ''Forester timed out after 30s''
      | ProcessError message \<Rightarrow> Failure message
      | Closed code signal \<Rightarrow>
          if signal \<noteq> None \<or> code \<noteq> Some 0
          then Failure (''Forester: process exited with code '' @ show_code code
                        @ '' and signal '' @ show_signal signal @ ''.'')
          else (case JSON_parse e (stdout out) of
                  Some result \<Rightarrow> Success result
                | None \<Rightarrow> Failure (''Forester didn'' @ [CHR 0x27]
                                    @ ''t return a valid JSON response:'' @ [CHR 0x0A]
                                    @ stdout out)))"

definition with_uri :: "string \<times> tree_body \<Rightarrow> ForesterTree" where
  "with_uri = (\<lambda>(id, entry).
     \<lparr>title = body_title entry, taxon = body_taxon entry, tags = body_tags entry,
      route = body_route entry, metas = body_metas entry,
      sourcePath = body_sourcePath entry, uri = Some id\<rparr>)"

text \<open>
  \<^verbatim>\<open>Object.entries\<close> of a string has one entry for each of its characters, under the
  character's index. The tree made of such an entry has the index as its uri and none
  of the fields of a tree; the fields that are not optional here are empty in it (the
  code tests \<^verbatim>\<open>sourcePath\<close> for truthiness and reads the file at it, which fails for
  both).
\<close>

definition index_tree :: "nat \<Rightarrow> ForesterTree" where
  "index_tree i =
     \<lparr>title = None, taxon = None, tags = [], route = [], metas = [], sourcePath = [],
      uri = Some (show_nat i)\<rparr>"

text \<open>
  The last statement of the successful branch of \<^verbatim>\<open>queryForest\<close>: the array as it is,
  and for every other value the entries of \<^verbatim>\<open>Object.entries\<close>, each with its key as
  the uri. \<^verbatim>\<open>Object.entries(null)\<close> throws a type error; a number and a boolean have no
  entries.
\<close>

definition as_forest :: "query_json \<Rightarrow> js_error + Forest" where
  "as_forest dataOrErrorMessage =
     (case dataOrErrorMessage of
        NewFormat forest \<Rightarrow> Inr forest
      | OldFormat entries \<Rightarrow> Inr (map with_uri entries)
      | JsonNull \<Rightarrow> Inl (TypeError ''Cannot convert undefined or null to object'')
      | JsonPrimitive \<Rightarrow> Inr []
      | JsonString text \<Rightarrow> Inr (map index_tree [0..<length text]))"

text \<open>
  \<^verbatim>\<open>queryForest\<close> up to its \<^verbatim>\<open>await\<close>: the workspace root is looked up, the process is
  spawned with the configured command and arguments, and the status says that the
  forest is updating. \<open>spawn_forester\<close> is the part before the status is set, with
  the exception thrown on the way, if any: the one of \<^verbatim>\<open>getRoot\<close> without a workspace
  folder, or the one of the spawn. Then the promise of \<^verbatim>\<open>queryForest\<close> is rejected and
  the status is left as it was.
\<close>

definition spawn_forester :: "env \<Rightarrow> js_error option" where
  "spawn_forester e =
     (case getRoot e of
        Inl err \<Rightarrow> Some err
      | Inr cwd \<Rightarrow>
          (let path = (case forester_path e of None \<Rightarrow> ''forester'' | Some configured \<Rightarrow> configured);
               configfile = forester_config e;
               args = [''query'', ''all''] @ (if truthy configfile then [the configfile] else [])
           in spawn e path args cwd))"

definition queryForest_start :: "env \<Rightarrow> 'a cache_scheme \<Rightarrow> js_error + 'a cache_scheme" where
  "queryForest_start e c =
     (case spawn_forester e of
        Some err \<Rightarrow> Inl err
      | None \<Rightarrow> Inr (updateStatusBar \<lparr>valid = None, updating = Some True, error = None\<rparr> c))"

text \<open>
  \<^verbatim>\<open>queryForest\<close> from the resolution of its promise on: the forest it returns or
  the exception it throws, and the cache as it leaves it. The cache is read when the
  promise resolves. On success the status is set before the forest is made of the
  parsed value. On failure \<^verbatim>\<open>queryForest\<close> awaits \<^verbatim>\<open>getForestFromBuild\<close> before it
  returns; it reads and writes no cell of the cache after that, so the two stretches
  are one step here.
\<close>

definition queryForest_finish ::
  "env \<Rightarrow> query_outcome \<Rightarrow> 'a cache_scheme \<Rightarrow> (js_error + Forest) \<times> 'a cache_scheme" where
  "queryForest_finish e out c =
     (case resolve_outcome e out of
        Success dataOrErrorMessage \<Rightarrow>
          (as_forest dataOrErrorMessage,
           updateStatusBar \<lparr>valid = Some True, updating = None, error = None\<rparr> c)
      | Failure dataOrErrorMessage \<Rightarrow>
          (let errorMessage =
                 dataOrErrorMessage
                 @ (if stdout out \<noteq> [] then [CHR 0x0A, CHR 0x0A] @ stdout out else [])
                 @ (if stderr out \<noteq> [] then [CHR 0x0A, CHR 0x0A] @ stderr out else []);
               c' = updateStatusBar
                      \<lparr>valid = Some False, updating = None, error = Some errorMessage\<rparr> c
           in (Inr (case mostRecentQueryResult c' of
                      Some lastGood \<Rightarrow> lastGood
                    | None \<Rightarrow>
                        (case getForestFromBuild e of
                           Some buildData \<Rightarrow> buildData
                         | None \<Rightarrow> [])),
               c')))"


subsection \<open>\<^verbatim>\<open>getForest\<close> and its callers as concurrent tasks\<close>

text \<open>
  The code runs on one thread, and a call runs without interruption up to its next
  \<^verbatim>\<open>await\<close>. The system below has one step for each such stretch. A call of
  \<^verbatim>\<open>queryForest\<close> is a fetch: it is running until the promise of its child process
  resolves, and then its own promise is resolved with the forest it returns or rejected
  with the exception it throws; it is rejected from the start when \<^verbatim>\<open>getRoot\<close> or the
  spawn throws.
\<close>

datatype fetch = Running | Resolved Forest | Rejected js_error

text \<open>The promise of \<^verbatim>\<open>queryForest\<close> as the end of its body leaves it: resolved with the
  forest returned, or rejected with the exception thrown.\<close>

definition settle :: "js_error + Forest \<Rightarrow> fetch" where
  "settle result = (case result of Inl err \<Rightarrow> Rejected err | Inr forest \<Rightarrow> Resolved forest)"

text \<open>
  A task is a call of \<^verbatim>\<open>getForest\<close> or of \<^verbatim>\<open>forestUpdatedOnDisk\<close>, at the place where
  it is suspended:
  \<^item> \<open>AwaitOwn n\<close>: \<^verbatim>\<open>getForest\<close> has started the fetch \<open>n\<close> and awaits it;
  \<^item> \<open>Notifying\<close>: it has stored the result and is running the change callbacks, which
    may call \<^verbatim>\<open>getForest\<close> themselves;
  \<^item> \<open>Joined n\<close>: \<^verbatim>\<open>getForest\<close> has returned the promise of the fetch \<open>n\<close>, which its
    caller awaits;
  \<^item> \<open>AwaitInFlight n\<close>: \<^verbatim>\<open>forestUpdatedOnDisk\<close> awaits the fetch \<open>n\<close> it found in
    progress, before it calls \<^verbatim>\<open>getForest\<close>;
  \<^item> \<open>Done forest\<close> and \<open>Failed err\<close>: the call has resolved to the forest, or has been
    rejected.
\<close>

datatype task =
  AwaitOwn nat
| Notifying
| Joined nat
| AwaitInFlight nat
| Done Forest
| Failed js_error

text \<open>The system: the cells of the cache, the fetches in the order of their calls,
  the number of child processes spawned, the tasks in the order of their calls, and
  the number of times the change callbacks were run.\<close>

record sys = cache +
  fetches :: "fetch list"
  spawns :: nat
  tasks :: "task list"
  notifications :: nat

text \<open>\<^verbatim>\<open>getForest\<close> from its call to its first \<^verbatim>\<open>await\<close> or \<^verbatim>\<open>return\<close>: the state of
  the new task and the system.\<close>

definition getForest_call :: "env \<Rightarrow> bool \<Rightarrow> bool \<Rightarrow> sys \<Rightarrow> task \<times> sys" where
  "getForest_call e forceReload fastReturnStale s =
     (if (queryInProgressPromise s = None \<or> fastReturnStale)
         \<and> mostRecentQueryResult s \<noteq> None \<and> \<not> forceReload
      then (Done (the (mostRecentQueryResult s)), s)
      else if queryInProgressPromise s \<noteq> None \<and> \<not> forceReload
      then (Joined (the (queryInProgressPromise s)), s)
      else
        (case queryForest_start e s of
           Inl err \<Rightarrow>
             (AwaitOwn (length (fetches s)),
              s\<lparr>queryInProgressPromise := Some (length (fetches s)),
                fetches := fetches s @ [Rejected err]\<rparr>)
         | Inr s' \<Rightarrow>
             (AwaitOwn (length (fetches s)),
              s'\<lparr>queryInProgressPromise := Some (length (fetches s)),
                 fetches := fetches s @ [Running], spawns := spawns s + 1\<rparr>)))"

text \<open>\<^verbatim>\<open>forestUpdatedOnDisk\<close> from its call to its first \<^verbatim>\<open>await\<close>.\<close>

definition forestUpdatedOnDisk_call :: "env \<Rightarrow> sys \<Rightarrow> task \<times> sys" where
  "forestUpdatedOnDisk_call e s =
     (case queryInProgressPromise s of
        Some n \<Rightarrow> (AwaitInFlight n, s)
      | None \<Rightarrow> getForest_call e True False s)"

text \<open>A task goes on after its \<^verbatim>\<open>await\<close>, once the promise it awaits is settled.\<close>

definition resume :: "env \<Rightarrow> task \<Rightarrow> sys \<Rightarrow> (task \<times> sys) option" where
  "resume e t s =
     (case t of
        AwaitOwn n \<Rightarrow>
          (if n < length (fetches s) then
             (case fetches s ! n of
                Running \<Rightarrow> None
              | Resolved forest \<Rightarrow>
                  Some (Notifying,
                        s\<lparr>mostRecentQueryResult := Some forest,
                          notifications := notifications s + 1\<rparr>)
              | Rejected err \<Rightarrow> Some (Failed err, s))
           else None)
      | Notifying \<Rightarrow>
          Some (Done (case mostRecentQueryResult s of Some forest \<Rightarrow> forest | None \<Rightarrow> []),
                s\<lparr>isInitialLoad := False, queryInProgressPromise := None\<rparr>)
      | Joined n \<Rightarrow>
          (if n < length (fetches s) then
             (case fetches s ! n of
                Running \<Rightarrow> None
              | Resolved forest \<Rightarrow> Some (Done forest, s)
              | Rejected err \<Rightarrow> Some (Failed err, s))
           else None)
      | AwaitInFlight n \<Rightarrow>
          (if n < length (fetches s) then
             (case fetches s ! n of
                Running \<Rightarrow> None
              | Resolved forest \<Rightarrow> Some (getForest_call e True False s)
              | Rejected err \<Rightarrow> Some (Failed err, s))
           else None)
      | Done forest \<Rightarrow> None
      | Failed err \<Rightarrow> None)"

text \<open>
  The events: a call of \<^verbatim>\<open>getForest\<close> with its two options, a file event that calls
  \<^verbatim>\<open>forestUpdatedOnDisk\<close>, the end of the child process of a running fetch, and the
  continuation of a suspended task. An event that cannot happen in a state has no
  successor state.
\<close>

datatype event =
  GetForest bool bool
| ForestUpdatedOnDisk
| Outcome nat query_outcome
| Resume nat

definition step :: "env \<Rightarrow> event \<Rightarrow> sys \<Rightarrow> sys option" where
  "step e ev s =
     (case ev of
        GetForest forceReload fastReturnStale \<Rightarrow>
          (let (t, s') = getForest_call e forceReload fastReturnStale s
           in Some (s'\<lparr>tasks := tasks s' @ [t]\<rparr>))
      | ForestUpdatedOnDisk \<Rightarrow>
          (let (t, s') = forestUpdatedOnDisk_call e s
           in Some (s'\<lparr>tasks := tasks s' @ [t]\<rparr>))
      | Outcome n out \<Rightarrow>
          (if n < length (fetches s) \<and> fetches s ! n = Running then
             (let (result, s') = queryForest_finish e out s
              in Some (s'\<lparr>fetches := (fetches s')[n := settle result]\<rparr>))
           else None)
      | Resume i \<Rightarrow>
          (if i < length (tasks s) then
             (case resume e (tasks s ! i) s of
                None \<Rightarrow> None
              | Some (t, s') \<Rightarrow> Some (s'\<lparr>tasks := (tasks s')[i := t]\<rparr>))
           else None))"

fun run :: "env \<Rightarrow> event list \<Rightarrow> sys \<Rightarrow> sys option" where
  "run e [] s = Some s"
| "run e (ev # evs) s = (case step e ev s of None \<Rightarrow> None | Some s' \<Rightarrow> run e evs s')"

text \<open>The system before the first call: nothing cached, nothing in progress.\<close>

definition initial_sys :: sys where
  "initial_sys =
     \<lparr>queryInProgressPromise = None, mostRecentQueryResult = None, isInitialLoad = True,
      forestStatus = \<lparr>valid = Some True, updating = None, error = None\<rparr>,
      fetches = [], spawns = 0, tasks = [], notifications = 0\<rparr>"

text \<open>The fetches in flight, the calls of \<^verbatim>\<open>queryForest\<close>, and those of them that
  have reached the adapter: the child processes spawned.\<close>

definition in_flight :: "sys \<Rightarrow> nat" where
  "in_flight s = length (filter (\<lambda>f. f = Running) (fetches s))"

definition queryForest_calls :: "sys \<Rightarrow> nat" where
  "queryForest_calls s = length (fetches s)"

definition adapter_invocations :: "sys \<Rightarrow> nat" where
  "adapter_invocations s = spawns s"

text \<open>Schedules of reads that are neither forced nor stale, with the steps of the
  fetches and tasks they start; and schedules without any new call.\<close>

definition plain_reads :: "event list \<Rightarrow> bool" where
  "plain_reads evs =
     list_all (\<lambda>ev. case ev of
                       GetForest forceReload fastReturnStale \<Rightarrow> \<not> forceReload \<and> \<not> fastReturnStale
                     | ForestUpdatedOnDisk \<Rightarrow> False
                     | _ \<Rightarrow> True) evs"

definition no_calls :: "event list \<Rightarrow> bool" where
  "no_calls evs =
     list_all (\<lambda>ev. case ev of
                       GetForest forceReload fastReturnStale \<Rightarrow> False
                     | ForestUpdatedOnDisk \<Rightarrow> False
                     | _ \<Rightarrow> True) evs"

subsection \<open>The invariant of coalesced reads\<close>

text \<open>
  With only reads that are neither forced nor stale, the system has either not been
  called yet, or has one fetch \<open>f\<close>: it is rejected with the exception of
  \<open>spawn_forester\<close> if there is one, and a process was spawned for it otherwise; its
  promise is in the promise cell until a result is cached, the cached result is its
  result, and every task awaits it, is running its callbacks after it was resolved, or
  is settled as the fetch is: done with its forest, or failed with its exception.
\<close>

definition task_ok :: "fetch \<Rightarrow> task \<Rightarrow> bool" where
  "task_ok f t =
     (case t of
        AwaitOwn n \<Rightarrow> n = 0
      | Joined n \<Rightarrow> n = 0
      | Notifying \<Rightarrow> (case f of Resolved v \<Rightarrow> True | _ \<Rightarrow> False)
      | Done v \<Rightarrow> f = Resolved v
      | AwaitInFlight n \<Rightarrow> False
      | Failed err \<Rightarrow> f = Rejected err)"

definition coalesced_with :: "env \<Rightarrow> fetch \<Rightarrow> sys \<Rightarrow> bool" where
  "coalesced_with e f s =
     (fetches s = [f]
      \<and> (\<forall>err. spawn_forester e = Some err \<longrightarrow> f = Rejected err)
      \<and> spawns s = (if spawn_forester e = None then 1 else 0)
      \<and> (queryInProgressPromise s = Some 0
          \<or> queryInProgressPromise s = None \<and> mostRecentQueryResult s \<noteq> None)
      \<and> (\<forall>v. mostRecentQueryResult s = Some v \<longrightarrow> f = Resolved v)
      \<and> (\<forall>t \<in> set (tasks s). task_ok f t)
      \<and> (Notifying \<in> set (tasks s) \<longrightarrow> mostRecentQueryResult s \<noteq> None))"

definition coalesced :: "env \<Rightarrow> sys \<Rightarrow> bool" where
  "coalesced e s =
     ((fetches s = [] \<and> spawns s = 0 \<and> tasks s = [] \<and> queryInProgressPromise s = None
        \<and> mostRecentQueryResult s = None)
      \<or> (\<exists>f. coalesced_with e f s))"

text \<open>A task that is settled as the fetch is.\<close>

definition settled_as :: "fetch \<Rightarrow> task \<Rightarrow> bool" where
  "settled_as f t =
     (case f of
        Running \<Rightarrow> False
      | Resolved v \<Rightarrow> t = Done v
      | Rejected err \<Rightarrow> t = Failed err)"

subsection \<open>Failure of the adapter, for stating the fallback\<close>

text \<open>The adapter has failed when the timer fires, when the process reports an
  error, when it ends with a signal or with an exit code other than 0, or when its
  output does not parse as JSON.\<close>

definition adapter_failed :: "env \<Rightarrow> query_outcome \<Rightarrow> bool" where
  "adapter_failed e out =
     (case child out of
        TimedOut \<Rightarrow> True
      | ProcessError message \<Rightarrow> True
      | Closed code signal \<Rightarrow>
          signal \<noteq> None \<or> code \<noteq> Some 0 \<or> JSON_parse e (stdout out) = None)"

subsection \<open>Example environments and schedules\<close>

text \<open>
  A workspace with the default settings, in which a process can be spawned. The
  query output \<open>FOREST\<close> parses to the three trees of the cycle and the output \<open>null\<close>
  to \<^verbatim>\<open>null\<close>; the build artifact parses to an array of the one tree whose uri is the
  empty string.
\<close>

definition example_env :: env where
  "example_env =
     \<lparr>workspaceFolders = [''/ws''],
      forester_path = None,
      forester_config = None,
      spawn_error = (\<lambda>file args cwd. None),
      JSON_parse = (\<lambda>text. if text = ''FOREST'' then Some (NewFormat cycle_forest)
                            else if text = ''ARTIFACT'' then Some (NewFormat [empty_uri_tree])
                            else if text = ''null'' then Some JsonNull
                            else None),
      existsSync = (\<lambda>path. path = ''/ws/output/forest.json''),
      readFile = (\<lambda>path. if path = ''/ws/output/forest.json'' then Some ''ARTIFACT'' else None),
      path_join = (\<lambda>a b c. a @ ''/'' @ b @ ''/'' @ c)\<rparr>"

definition query_ok :: query_outcome where
  "query_ok = \<lparr>child = Closed (Some 0) None, stdout = ''FOREST'', stderr = []\<rparr>"

definition query_timed_out :: query_outcome where
  "query_timed_out = \<lparr>child = TimedOut, stdout = [], stderr = []\<rparr>"

text \<open>A query whose process prints \<open>null\<close> and exits with the code 0.\<close>

definition query_null :: query_outcome where
  "query_null = \<lparr>child = Closed (Some 0) None, stdout = ''null'', stderr = []\<rparr>"

text \<open>Two reads while nothing is cached, the end of the query, the continuation of
  the first read, a read from a change callback, the remaining continuations, and a
  read after all of them.\<close>

definition reads_schedule :: "event list" where
  "reads_schedule =
     [GetForest False False, GetForest False False, Outcome 0 query_ok,
      Resume 0, GetForest False False, Resume 0, Resume 1, Resume 2,
      GetForest False False]"

text \<open>The initial load, two file events while its query is running, the end of the
  query, and the continuations in the order in which they were suspended.\<close>

definition burst_schedule :: "event list" where
  "burst_schedule =
     [GetForest True False, ForestUpdatedOnDisk, ForestUpdatedOnDisk,
      Outcome 0 query_ok, Resume 0, Resume 0, Resume 1, Resume 2]"

text \<open>The same workspace without a build artifact.\<close>

definition bare_env :: env where
  "bare_env = example_env\<lparr>existsSync := (\<lambda>path. False)\<rparr>"

text \<open>The example workspace with no folder open, and with the setting
  \<^verbatim>\<open>forester.path\<close> set to the empty string.\<close>

definition no_folder_env :: env where
  "no_folder_env = example_env\<lparr>workspaceFolders := []\<rparr>"

definition empty_path_env :: env where
  "empty_path_env = example_env\<lparr>forester_path := Some []\<rparr>"

text \<open>Two reads while nothing is cached, and their continuations; and the same two
  reads with the end of a query that prints \<open>null\<close> before the continuations.\<close>

definition rejected_schedule :: "event list" where
  "rejected_schedule = [GetForest False False, GetForest False False, Resume 0, Resume 1]"

definition null_schedule :: "event list" where
  "null_schedule =
     [GetForest False False, GetForest False False, Outcome 0 query_null, Resume 0, Resume 1]"

section \<open>Properties of the transclusion graph\<close>

subsection \<open>\<^verbatim>\<open>findRoot\<close>\<close>

lemma findRoot_within_enough:
  "card (fst ` set ns - visited) < k \<Longrightarrow>
     findRoot_within k ns treeId visited current = Some (findRoot_loop ns treeId visited current)"
proof (induction k arbitrary: visited current)
  case 0
  then show ?case by simp
next
  case (Suc k)
  show ?case
  proof (cases "current \<in> visited")
    case True
    then show ?thesis by (simp add: findRoot_loop.simps)
  next
    case nv: False
    show ?thesis
    proof (cases "map_of ns current")
      case None
      with nv show ?thesis by (simp add: findRoot_loop.simps)
    next
      case (Some node)
      show ?thesis
      proof (cases "transcludedBy node")
        case Nil
        with nv Some show ?thesis by (simp add: findRoot_loop.simps)
      next
        case (Cons parent others)
        from Some have "current \<in> fst ` set ns"
          by (metis map_of_SomeD fst_conv image_eqI)
        with nv have "fst ` set ns - insert current visited \<subset> fst ` set ns - visited"
          by blast
        then have "card (fst ` set ns - insert current visited) < card (fst ` set ns - visited)"
          by (intro psubset_card_mono) auto
        with Suc.prems have "card (fst ` set ns - insert current visited) < k" by simp
        from Suc.IH[OF this] nv Some Cons show ?thesis
          by (simp add: findRoot_loop.simps[of ns treeId visited current])
      qed
    qed
  qed
qed

lemma walk_add:
  "walk ns t (i + m) = (case walk ns t i of None \<Rightarrow> None | Some c \<Rightarrow> walk ns c m)"
proof (induction m)
  case 0
  then show ?case by (simp split: option.splits)
next
  case (Suc m)
  then show ?case by (simp split: option.splits)
qed

text \<open>The loop returns the origin, or a node of the chain that has no parent.\<close>

lemma findRoot_loop_result:
  "findRoot_loop ns treeId visited current = treeId \<or>
     (\<exists>k. walk ns current k = Some (findRoot_loop ns treeId visited current) \<and>
          firstParent ns (findRoot_loop ns treeId visited current) = None)"
proof (induction ns treeId visited current rule: findRoot_loop.induct)
  case (1 ns treeId visited current)
  show ?case
  proof (cases "current \<in> visited")
    case True
    then show ?thesis by (simp add: findRoot_loop.simps)
  next
    case nv: False
    show ?thesis
    proof (cases "map_of ns current")
      case None
      with nv have "findRoot_loop ns treeId visited current = current"
        by (simp add: findRoot_loop.simps)
      moreover have "walk ns current 0 = Some current" by simp
      moreover from None have "firstParent ns current = None" by (simp add: firstParent_def)
      ultimately show ?thesis by metis
    next
      case (Some node)
      show ?thesis
      proof (cases "transcludedBy node")
        case Nil
        with nv Some have "findRoot_loop ns treeId visited current = current"
          by (simp add: findRoot_loop.simps)
        moreover have "walk ns current 0 = Some current" by simp
        moreover from Some Nil have "firstParent ns current = None"
          by (simp add: firstParent_def)
        ultimately show ?thesis by metis
      next
        case (Cons parent others)
        with nv Some have eq: "findRoot_loop ns treeId visited current
            = findRoot_loop ns treeId (insert current visited) parent"
          by (simp add: findRoot_loop.simps[of ns treeId visited current])
        from Some Cons have fp: "firstParent ns current = Some parent"
          by (simp add: firstParent_def)
        from "1.IH"[OF nv Some Cons]
        show ?thesis
        proof
          assume "findRoot_loop ns treeId (insert current visited) parent = treeId"
          with eq show ?thesis by simp
        next
          assume "\<exists>k. walk ns parent k
                = Some (findRoot_loop ns treeId (insert current visited) parent) \<and>
              firstParent ns (findRoot_loop ns treeId (insert current visited) parent) = None"
          then obtain k where k: "walk ns parent k = Some (findRoot_loop ns treeId visited current)"
            and top: "firstParent ns (findRoot_loop ns treeId visited current) = None"
            using eq by auto
          have "walk ns current (1 + k) = Some (findRoot_loop ns treeId visited current)"
            using walk_add[of ns current 1 k] fp k by simp
          with top show ?thesis by blast
        qed
      qed
    qed
  qed
qed

lemma walk_None_mono: "walk ns t i = None \<Longrightarrow> i \<le> j \<Longrightarrow> walk ns t j = None"
  by (induction j) (auto simp: le_Suc_eq)

text \<open>A chain that comes back to one of its nodes never ends.\<close>

lemma walk_revisit_total:
  assumes "i < j" and "walk ns t i = Some c" and "walk ns t j = Some c"
  shows "walk ns t k \<noteq> None"
proof (induction k rule: less_induct)
  case (less k)
  show ?case
  proof (cases "k \<le> j")
    case True
    with assms(3) walk_None_mono[of ns t k j] show ?thesis by auto
  next
    case False
    then have kj: "j < k" by simp
    define m where "m = k - j"
    have k: "k = j + m" using kj by (simp add: m_def)
    have "walk ns t k = walk ns c m" using walk_add[of ns t j m] assms(3) k by simp
    also have "\<dots> = walk ns t (i + m)" using walk_add[of ns t i m] assms(2) by simp
    finally have "walk ns t k = walk ns t (i + m)" .
    moreover have "i + m < k" using assms(1) k by simp
    ultimately show ?thesis using less.IH by simp
  qed
qed

lemma findRoot_cycle:
  assumes "i < j" and "walk ns t i = Some c" and "walk ns t j = Some c"
  shows "findRoot ns t = t"
proof -
  have loop: "findRoot_loop ns t {} t = t"
  proof (rule ccontr)
    assume ne: "findRoot_loop ns t {} t \<noteq> t"
    with findRoot_loop_result[of ns t "{}" t] obtain k where
      k: "walk ns t k = Some (findRoot_loop ns t {} t)"
      and top: "firstParent ns (findRoot_loop ns t {} t) = None" by blast
    then have "walk ns t (Suc k) = None" by simp
    with walk_revisit_total[OF assms, of "Suc k"] show False by simp
  qed
  then show ?thesis by (simp add: findRoot_def split: option.splits)
qed

lemma card_keys_le: "card (fst ` set ns) \<le> length ns"
  by (metis card_length length_map set_map)

text \<open>
  Claim C7. For every graph the loop of \<^verbatim>\<open>findRoot\<close> returns within as many
  iterations as the graph has nodes, and one more; for a node that no tree transcludes
  \<^verbatim>\<open>findRoot\<close> returns the node itself; and when the chain of first parents of a node
  comes back to a node it has already passed (a cycle), \<^verbatim>\<open>findRoot\<close> returns the node
  the walk started from.
\<close>

theorem findRoot_terminates_and_roots:
  "findRoot_within (Suc (length ns)) ns treeId {} treeId
      = Some (findRoot_loop ns treeId {} treeId)
   \<and> (map_of ns treeId = Some node \<longrightarrow> transcludedBy node = [] \<longrightarrow> findRoot ns treeId = treeId)
   \<and> (i < j \<longrightarrow> walk ns treeId i = Some c \<longrightarrow> walk ns treeId j = Some c
        \<longrightarrow> findRoot ns treeId = treeId)"
proof (intro conjI impI)
  have "card (fst ` set ns - {}) < Suc (length ns)"
    using card_keys_le[of ns] by simp
  then show "findRoot_within (Suc (length ns)) ns treeId {} treeId
      = Some (findRoot_loop ns treeId {} treeId)"
    by (rule findRoot_within_enough)
next
  assume "map_of ns treeId = Some node" and "transcludedBy node = []"
  then show "findRoot ns treeId = treeId" by (simp add: findRoot_def)
next
  assume "i < j" and "walk ns treeId i = Some c" and "walk ns treeId j = Some c"
  then show "findRoot ns treeId = treeId" by (rule findRoot_cycle)
qed

text \<open>In the example graph, D has no parent, and the chain of B is B, A, C, B.\<close>

theorem findRoot_terminates_and_roots_witness:
  "findRoot_within 5 cycle_nodes ''D'' {} ''D'' = Some ''D''
   \<and> findRoot cycle_nodes ''D'' = ''D''
   \<and> walk cycle_nodes ''B'' 0 = Some ''B'' \<and> walk cycle_nodes ''B'' 3 = Some ''B''
   \<and> findRoot cycle_nodes ''B'' = ''B''
   \<and> findRoot_within 5 cycle_nodes ''B'' {} ''B'' = Some ''B''"
proof -
  have len: "Suc (length cycle_nodes) = 5" by (simp add: cycle_nodes_def)
  have d: "map_of cycle_nodes ''D'' = Some (graph_node ''D'' [''A''] [])"
    by (simp add: cycle_nodes_def)
  have dd: "transcludedBy (graph_node ''D'' [''A''] []) = []"
    by (simp add: graph_node_def)
  have w0: "walk cycle_nodes ''B'' 0 = Some ''B''" by simp
  have w3: "walk cycle_nodes ''B'' 3 = Some ''B''"
    by (simp add: eval_nat_numeral firstParent_def cycle_nodes_def graph_node_def)
  have lt: "(0::nat) < 3" by simp
  have rd: "findRoot cycle_nodes ''D'' = ''D''"
    using findRoot_terminates_and_roots[of cycle_nodes "''D''" "graph_node ''D'' [''A''] []" 0 0 "''D''"]
      d dd by simp
  have rb: "findRoot cycle_nodes ''B'' = ''B''"
    using findRoot_terminates_and_roots[of cycle_nodes "''B''" "graph_node ''B'' [''C''] [''A'']" 0 3 "''B''"]
      w0 w3 lt by simp
  have ld: "findRoot_loop cycle_nodes ''D'' {} ''D'' = ''D''"
    by (simp add: findRoot_loop.simps cycle_nodes_def graph_node_def)
  have lb: "findRoot_loop cycle_nodes ''B'' {} ''B'' = ''B''"
    using rb by (simp add: findRoot_def cycle_nodes_def graph_node_def)
  have fd: "findRoot_within 5 cycle_nodes ''D'' {} ''D'' = Some ''D''"
    using findRoot_terminates_and_roots[of cycle_nodes "''D''" "graph_node ''D'' [''A''] []" 0 0 "''D''"]
      len ld by simp
  have fb: "findRoot_within 5 cycle_nodes ''B'' {} ''B'' = Some ''B''"
    using findRoot_terminates_and_roots[of cycle_nodes "''B''" "graph_node ''B'' [''C''] [''A'']" 0 3 "''B''"]
      len lb by simp
  from fd rd w0 w3 rb fb show ?thesis by simp
qed

subsection \<open>The message \<^verbatim>\<open>togglePin\<close>\<close>

text \<open>
  Claim C6. For a node that is not pinned: when ten roots are pinned already, the
  message \<^verbatim>\<open>togglePin\<close> leaves the pinned roots (and the expanded nodes) as they are
  and reports that no more than ten roots can be pinned; when fewer than ten are
  pinned, it appends the node to the pinned roots and expands it, with no warning, so
  the tenth pin succeeds. For a node that is pinned, it removes the node from the
  pinned roots.
\<close>

theorem togglePin_limit:
  "(nodeId \<notin> set (pinnedRootIds p) \<longrightarrow> 10 \<le> length (pinnedRootIds p) \<longrightarrow>
      pinnedRootIds (snd (onTogglePin nodeId p)) = pinnedRootIds p
      \<and> expandedNodes (snd (onTogglePin nodeId p)) = expandedNodes p
      \<and> fst (onTogglePin nodeId p) = [ShowWarningMessage ''Cannot pin more than 10 roots'', Refresh])
   \<and> (nodeId \<notin> set (pinnedRootIds p) \<longrightarrow> length (pinnedRootIds p) < 10 \<longrightarrow>
      pinnedRootIds (snd (onTogglePin nodeId p)) = pinnedRootIds p @ [nodeId]
      \<and> nodeId \<in> set (expandedNodes (snd (onTogglePin nodeId p)))
      \<and> fst (onTogglePin nodeId p) = [SetContextPinned True, Refresh])
   \<and> (nodeId \<in> set (pinnedRootIds p) \<longrightarrow>
      pinnedRootIds (snd (onTogglePin nodeId p)) = filter (\<lambda>i. i \<noteq> nodeId) (pinnedRootIds p)
      \<and> nodeId \<notin> set (pinnedRootIds (snd (onTogglePin nodeId p))))"
  by (auto simp: onTogglePin_def Let_def MAX_PINNED_ROOTS_def saveState_def set_add_def)

text \<open>With ten roots pinned an eleventh is refused; with nine pinned the tenth is
  added; a pinned root is removed.\<close>

theorem togglePin_limit_witness:
  "pinnedRootIds (snd (onTogglePin ''B'' (example_provider ten_roots ten_roots))) = ten_roots
   \<and> fst (onTogglePin ''B'' (example_provider ten_roots ten_roots))
       = [ShowWarningMessage ''Cannot pin more than 10 roots'', Refresh]
   \<and> pinnedRootIds (snd (onTogglePin ''A'' (example_provider nine_roots nine_roots))) = ten_roots
   \<and> ''A'' \<in> set (expandedNodes (snd (onTogglePin ''A'' (example_provider nine_roots nine_roots))))
   \<and> length ten_roots = 10
   \<and> pinnedRootIds (snd (onTogglePin ''A'' (example_provider ten_roots ten_roots))) = nine_roots"
proof -
  let ?full = "example_provider ten_roots ten_roots"
  let ?nine = "example_provider nine_roots nine_roots"
  have full: "pinnedRootIds ?full = ten_roots" and nine: "pinnedRootIds ?nine = nine_roots"
    by (simp_all add: example_provider_def)
  have b: "''B'' \<notin> set ten_roots" and a9: "''A'' \<notin> set nine_roots" and a10: "''A'' \<in> set ten_roots"
    by (simp_all add: ten_roots_def nine_roots_def)
  have l10: "length ten_roots = 10" and l9: "length nine_roots < 10"
    by (simp_all add: ten_roots_def nine_roots_def)
  have f: "filter (\<lambda>i. i \<noteq> ''A'') ten_roots = nine_roots"
    by (simp add: ten_roots_def nine_roots_def)
  from togglePin_limit[of "''B''" ?full] full b l10
  have 1: "pinnedRootIds (snd (onTogglePin ''B'' ?full)) = ten_roots
      \<and> fst (onTogglePin ''B'' ?full) = [ShowWarningMessage ''Cannot pin more than 10 roots'', Refresh]"
    by simp
  from togglePin_limit[of "''A''" ?nine] nine a9 l9
  have 2: "pinnedRootIds (snd (onTogglePin ''A'' ?nine)) = ten_roots
      \<and> ''A'' \<in> set (expandedNodes (snd (onTogglePin ''A'' ?nine)))"
    by (simp add: ten_roots_def)
  from togglePin_limit[of "''A''" ?full] full a10 f
  have 3: "pinnedRootIds (snd (onTogglePin ''A'' ?full)) = nine_roots"
    by simp
  from 1 2 3 l10 show ?thesis by simp
qed

subsection \<open>Rendering and cycles\<close>

text \<open>Every row below a node is the row of a node that the node reaches.\<close>

lemma render_ids_reachable:
  "r \<in> set (renderNode p nodeId depth visited) \<Longrightarrow>
     (nodeId, row_id r) \<in> (transcludes_rel (nodes p))\<^sup>*"
proof (induction p nodeId depth visited arbitrary: r rule: renderNode.induct)
  case (1 p nodeId depth visited)
  show ?case
  proof (cases "map_of (nodes p) nodeId")
    case None
    with 1(2) show ?thesis by (simp add: renderNode.simps)
  next
    case (Some node)
    show ?thesis
    proof (cases "nodeId \<in> visited")
      case True
      with Some 1(2) show ?thesis by (simp add: renderNode.simps)
    next
      case nv: False
      show ?thesis
      proof (cases "row_id r = nodeId")
        case True
        then show ?thesis by simp
      next
        case False
        with 1(2) Some nv obtain childId where
          ex: "transcludes node \<noteq> [] \<and> nodeId \<in> set (expandedNodes p)"
          and c: "childId \<in> set (transcludes node)"
          and r: "r \<in> set (renderNode p childId (depth + 1) (insert nodeId visited))"
          by (auto simp: renderNode.simps[of p nodeId depth visited] split: if_splits)
        from "1.IH"[OF Some nv ex c r]
        have "(childId, row_id r) \<in> (transcludes_rel (nodes p))\<^sup>*" .
        moreover from Some c have "(nodeId, childId) \<in> transcludes_rel (nodes p)"
          by (auto simp: transcludes_rel_def)
        ultimately show ?thesis by (rule converse_rtrancl_into_rtrancl[rotated])
      qed
    qed
  qed
qed

text \<open>A row is marked as a cycle only for a node of the visited set, or for a node
  that reaches itself.\<close>

lemma render_cycle_rows:
  "r \<in> set (renderNode p nodeId depth visited) \<Longrightarrow> is_cycle r \<Longrightarrow>
     row_id r \<in> visited \<or> (row_id r, row_id r) \<in> (transcludes_rel (nodes p))\<^sup>+"
proof (induction p nodeId depth visited arbitrary: r rule: renderNode.induct)
  case (1 p nodeId depth visited)
  show ?case
  proof (cases "map_of (nodes p) nodeId")
    case None
    with 1(2) show ?thesis by (simp add: renderNode.simps)
  next
    case (Some node)
    show ?thesis
    proof (cases "nodeId \<in> visited")
      case True
      with Some 1(2) show ?thesis by (simp add: renderNode.simps)
    next
      case nv: False
      with 1(2,3) Some obtain childId where
        ex: "transcludes node \<noteq> [] \<and> nodeId \<in> set (expandedNodes p)"
        and c: "childId \<in> set (transcludes node)"
        and r: "r \<in> set (renderNode p childId (depth + 1) (insert nodeId visited))"
        by (auto simp: renderNode.simps[of p nodeId depth visited] split: if_splits)
      from "1.IH"[OF Some nv ex c r 1(3)]
      have "row_id r \<in> insert nodeId visited
          \<or> (row_id r, row_id r) \<in> (transcludes_rel (nodes p))\<^sup>+" .
      moreover
      { assume eq: "row_id r = nodeId"
        from Some c have "(nodeId, childId) \<in> transcludes_rel (nodes p)"
          by (auto simp: transcludes_rel_def)
        moreover from render_ids_reachable[OF r] eq
        have "(childId, nodeId) \<in> (transcludes_rel (nodes p))\<^sup>*" by simp
        ultimately have "(nodeId, nodeId) \<in> (transcludes_rel (nodes p))\<^sup>+"
          by (rule rtrancl_into_trancl2)
        with eq have "(row_id r, row_id r) \<in> (transcludes_rel (nodes p))\<^sup>+" by simp }
      ultimately show ?thesis by auto
    qed
  qed
qed

lemma getTreeHtml_cycle_rows:
  assumes "getTreeHtml p = Some rows" and "r \<in> set rows" and "is_cycle r"
  shows "(row_id r, row_id r) \<in> (transcludes_rel (nodes p))\<^sup>+"
proof -
  from assms(1,2) obtain rootId where "r \<in> set (renderNode p rootId 0 {})"
    by (auto simp: getTreeHtml_def split: if_splits)
  from render_cycle_rows[OF this assms(3)] show ?thesis by simp
qed

lemma render_three_cycle:
  assumes "distinct [a, b, c]"
    and "map_of (nodes p) a = Some na" and "map_of (nodes p) b = Some nb"
    and "map_of (nodes p) c = Some nc"
    and "transcludes na = [b]" and "transcludes nb = [c]" and "transcludes nc = [a]"
    and "{a, b, c} \<subseteq> set (expandedNodes p)"
  shows "renderNode p a 0 {} =
     [TreeRow a 0 (toLowerCase (titleOr na a)) (selectedNodeId p = Some a) True True
        (Some (a \<in> set (pinnedRootIds p))),
      TreeRow b 1 (toLowerCase (titleOr nb b)) (selectedNodeId p = Some b) True True None,
      TreeRow c 2 (toLowerCase (titleOr nc c)) (selectedNodeId p = Some c) True True None,
      CycleRow a 3 (titleOr na a)]"
  using assms by (auto simp: renderNode.simps)

lemma render_diamond:
  assumes "distinct [a, b, c, d]"
    and "map_of (nodes p) a = Some na" and "map_of (nodes p) b = Some nb"
    and "map_of (nodes p) c = Some nc" and "map_of (nodes p) d = Some nd"
    and "transcludes na = [b, c]" and "transcludes nb = [d]" and "transcludes nc = [d]"
    and "transcludes nd = []"
    and "{a, b, c} \<subseteq> set (expandedNodes p)"
  shows "renderNode p a 0 {} =
     [TreeRow a 0 (toLowerCase (titleOr na a)) (selectedNodeId p = Some a) True True
        (Some (a \<in> set (pinnedRootIds p))),
      TreeRow b 1 (toLowerCase (titleOr nb b)) (selectedNodeId p = Some b) True True None,
      TreeRow d 2 (toLowerCase (titleOr nd d)) (selectedNodeId p = Some d) False
        (d \<in> set (expandedNodes p)) None,
      TreeRow c 1 (toLowerCase (titleOr nc c)) (selectedNodeId p = Some c) True True None,
      TreeRow d 2 (toLowerCase (titleOr nd d)) (selectedNodeId p = Some d) False
        (d \<in> set (expandedNodes p)) None]"
  using assms by (auto simp: renderNode.simps)

lemma render_two_roots:
  assumes "distinct [a, e, d]"
    and "map_of (nodes p) a = Some na" and "map_of (nodes p) e = Some ne"
    and "map_of (nodes p) d = Some nd"
    and "transcludes na = [d]" and "transcludes ne = [d]" and "transcludes nd = []"
    and "{a, e} \<subseteq> set (expandedNodes p)" and "currentRootIds p = [a, e]"
  shows "getTreeHtml p = Some
     [TreeRow a 0 (toLowerCase (titleOr na a)) (selectedNodeId p = Some a) True True
        (Some (a \<in> set (pinnedRootIds p))),
      TreeRow d 1 (toLowerCase (titleOr nd d)) (selectedNodeId p = Some d) False
        (d \<in> set (expandedNodes p)) None,
      TreeRow e 0 (toLowerCase (titleOr ne e)) (selectedNodeId p = Some e) True True
        (Some (e \<in> set (pinnedRootIds p))),
      TreeRow d 1 (toLowerCase (titleOr nd d)) (selectedNodeId p = Some d) False
        (d \<in> set (expandedNodes p)) None]"
  using assms by (auto simp: getTreeHtml_def renderNode.simps)

text \<open>The graph that \<^verbatim>\<open>buildGraph\<close> makes of the three trees, before any message.\<close>

lemma cycle_forest_built:
  "buildGraph [] cycle_files (Some ''A'') cycle_forest initial_provider =
     (None,
      \<lparr>nodes =
         [(''A'', graph_node ''A'' [''B''] [''C'']),
          (''B'', graph_node ''B'' [''C''] [''A'']),
          (''C'', graph_node ''C'' [''A''] [''B''])],
       expandedNodes = [''A''], currentRootIds = [''A''], pinnedRootIds = [],
       focusMode = False, initialLoad = False, selectedNodeId = None,
       workspaceState = None, hasView = True\<rparr>)"
  by (simp add: buildGraph_def cycle_forest_def cycle_files_def initial_provider_def
      plain_tree_def graph_node_def makeNode_def getTaxonAbbreviation_def js_truthy_def js_toString_def truthy_def
      looksLikeUrl_def startsWith_def parseTransclusions_def scanContent_def scanLine_def
      trimStart_def is_space_def match_at_def transclude_open_def addTransclusion_def
      set_add_def determineRoots_def findRoot_def findRoot_loop.simps
      expandOnInitialLoad_def)

lemma cycle_view_eq:
  "cycle_view =
     \<lparr>nodes =
        [(''A'', graph_node ''A'' [''B''] [''C'']),
         (''B'', graph_node ''B'' [''C''] [''A'']),
         (''C'', graph_node ''C'' [''A''] [''B''])],
      expandedNodes = [''A'', ''B'', ''C''], currentRootIds = [''A''],
      pinnedRootIds = [''A''], focusMode = False, initialLoad = False,
      selectedNodeId = None,
      workspaceState =
        Some \<lparr>saved_expandedNodes = [''A'', ''B'', ''C''], saved_pinnedRootIds = [''A''],
              saved_focusMode = False, saved_selectedNodeId = None\<rparr>,
      hasView = True\<rparr>"
  unfolding cycle_view_def cycle_forest_built
  by (simp add: onToggle_def autoPinOnInteraction_def findRootForNode_def Let_def
      nodeContainsChild.simps graph_node_def set_add_def saveState_def postUpdate_def)

text \<open>
  Claim C4. In a graph where A transcludes B, B transcludes C and C transcludes A, all
  three expanded, the rendering from the root A is total (\<^const>\<open>renderNode\<close> is a
  total function) and consists of the rows of A, B and C at the depths 0, 1 and 2,
  each once, followed by one row for A at depth 3 that is marked as a cycle, below
  which nothing is rendered. A row is marked as a cycle only for a node that reaches
  itself by transclusions, under whichever root it is rendered; so a node that two
  paths reach (D below B and below C) and a node under two roots (D below the roots A
  and E) has an ordinary row at each of its positions.
\<close>

theorem render_cycle_on_path_only:
  "(distinct [a, b, c] \<longrightarrow>
      map_of (nodes p) a = Some na \<longrightarrow> map_of (nodes p) b = Some nb \<longrightarrow>
      map_of (nodes p) c = Some nc \<longrightarrow>
      transcludes na = [b] \<longrightarrow> transcludes nb = [c] \<longrightarrow> transcludes nc = [a] \<longrightarrow>
      {a, b, c} \<subseteq> set (expandedNodes p) \<longrightarrow>
      renderNode p a 0 {} =
        [TreeRow a 0 (toLowerCase (titleOr na a)) (selectedNodeId p = Some a) True True
           (Some (a \<in> set (pinnedRootIds p))),
         TreeRow b 1 (toLowerCase (titleOr nb b)) (selectedNodeId p = Some b) True True None,
         TreeRow c 2 (toLowerCase (titleOr nc c)) (selectedNodeId p = Some c) True True None,
         CycleRow a 3 (titleOr na a)])
   \<and> (r \<in> set (renderNode q rootId 0 {}) \<longrightarrow> is_cycle r \<longrightarrow>
        (row_id r, row_id r) \<in> (transcludes_rel (nodes q))\<^sup>+)
   \<and> (getTreeHtml q = Some rows \<longrightarrow> r' \<in> set rows \<longrightarrow> is_cycle r' \<longrightarrow>
        (row_id r', row_id r') \<in> (transcludes_rel (nodes q))\<^sup>+)
   \<and> (distinct [a, b, c, d] \<longrightarrow>
      map_of (nodes v) a = Some na \<longrightarrow> map_of (nodes v) b = Some nb \<longrightarrow>
      map_of (nodes v) c = Some nc \<longrightarrow> map_of (nodes v) d = Some nd \<longrightarrow>
      transcludes na = [b, c] \<longrightarrow> transcludes nb = [d] \<longrightarrow> transcludes nc = [d] \<longrightarrow>
      transcludes nd = [] \<longrightarrow> {a, b, c} \<subseteq> set (expandedNodes v) \<longrightarrow>
      renderNode v a 0 {} =
        [TreeRow a 0 (toLowerCase (titleOr na a)) (selectedNodeId v = Some a) True True
           (Some (a \<in> set (pinnedRootIds v))),
         TreeRow b 1 (toLowerCase (titleOr nb b)) (selectedNodeId v = Some b) True True None,
         TreeRow d 2 (toLowerCase (titleOr nd d)) (selectedNodeId v = Some d) False
           (d \<in> set (expandedNodes v)) None,
         TreeRow c 1 (toLowerCase (titleOr nc c)) (selectedNodeId v = Some c) True True None,
         TreeRow d 2 (toLowerCase (titleOr nd d)) (selectedNodeId v = Some d) False
           (d \<in> set (expandedNodes v)) None])
   \<and> (distinct [a, e, d] \<longrightarrow>
      map_of (nodes w) a = Some na \<longrightarrow> map_of (nodes w) e = Some ne \<longrightarrow>
      map_of (nodes w) d = Some nd \<longrightarrow>
      transcludes na = [d] \<longrightarrow> transcludes ne = [d] \<longrightarrow> transcludes nd = [] \<longrightarrow>
      {a, e} \<subseteq> set (expandedNodes w) \<longrightarrow> currentRootIds w = [a, e] \<longrightarrow>
      getTreeHtml w = Some
        [TreeRow a 0 (toLowerCase (titleOr na a)) (selectedNodeId w = Some a) True True
           (Some (a \<in> set (pinnedRootIds w))),
         TreeRow d 1 (toLowerCase (titleOr nd d)) (selectedNodeId w = Some d) False
           (d \<in> set (expandedNodes w)) None,
         TreeRow e 0 (toLowerCase (titleOr ne e)) (selectedNodeId w = Some e) True True
           (Some (e \<in> set (pinnedRootIds w))),
         TreeRow d 1 (toLowerCase (titleOr nd d)) (selectedNodeId w = Some d) False
           (d \<in> set (expandedNodes w)) None])"
proof (intro conjI impI)
  assume "r \<in> set (renderNode q rootId 0 {})" and "is_cycle r"
  from render_cycle_rows[OF this] show "(row_id r, row_id r) \<in> (transcludes_rel (nodes q))\<^sup>+"
    by simp
next
  assume "getTreeHtml q = Some rows" and "r' \<in> set rows" and "is_cycle r'"
  then show "(row_id r', row_id r') \<in> (transcludes_rel (nodes q))\<^sup>+"
    by (rule getTreeHtml_cycle_rows)
qed (rule render_three_cycle render_diamond render_two_roots; assumption)+

text \<open>
  The cycle built from the three trees' texts renders as A, B, C and the cycle row of
  A, whose node reaches itself; in the graph with D below B, C and E, every row of D
  is an ordinary one.
\<close>

theorem render_cycle_on_path_only_witness:
  "renderNode cycle_view ''A'' 0 {} =
     [TreeRow ''A'' 0 ''a'' False True True (Some True),
      TreeRow ''B'' 1 ''b'' False True True None,
      TreeRow ''C'' 2 ''c'' False True True None,
      CycleRow ''A'' 3 ''A'']
   \<and> CycleRow ''A'' 3 ''A'' \<in> set (renderNode cycle_view ''A'' 0 {})
   \<and> (''A'', ''A'') \<in> (transcludes_rel (nodes cycle_view))\<^sup>+
   \<and> getTreeHtml diamond_view = Some
       [TreeRow ''A'' 0 ''a'' False True True (Some True),
        TreeRow ''B'' 1 ''b'' False True True None,
        TreeRow ''D'' 2 ''d'' False False False None,
        TreeRow ''C'' 1 ''c'' False True True None,
        TreeRow ''D'' 2 ''d'' False False False None,
        TreeRow ''E'' 0 ''e'' False True True (Some False),
        TreeRow ''D'' 1 ''d'' False False False None]
   \<and> renderNode diamond_view ''A'' 0 {} =
       [TreeRow ''A'' 0 ''a'' False True True (Some True),
        TreeRow ''B'' 1 ''b'' False True True None,
        TreeRow ''D'' 2 ''d'' False False False None,
        TreeRow ''C'' 1 ''c'' False True True None,
        TreeRow ''D'' 2 ''d'' False False False None]"
proof -
  let ?na = "graph_node ''A'' [''B''] [''C'']"
  let ?nb = "graph_node ''B'' [''C''] [''A'']"
  let ?nc = "graph_node ''C'' [''A''] [''B'']"
  have low: "toLowerCase ''A'' = ''a''" "toLowerCase ''B'' = ''b''" "toLowerCase ''C'' = ''c''"
    "toLowerCase ''D'' = ''d''" "toLowerCase ''E'' = ''e''"
    by (simp_all add: toLowerCase_def toLowerCase_char_def upper_case_def lower_case_def)
  have three: "renderNode cycle_view ''A'' 0 {} =
     [TreeRow ''A'' 0 ''a'' False True True (Some True),
      TreeRow ''B'' 1 ''b'' False True True None,
      TreeRow ''C'' 2 ''c'' False True True None,
      CycleRow ''A'' 3 ''A'']"
    using render_cycle_on_path_only[of "''A''" "''B''" "''C''" cycle_view ?na ?nb ?nc]
    by (simp add: cycle_view_eq graph_node_def titleOr_def low)
  then have mem: "CycleRow ''A'' 3 ''A'' \<in> set (renderNode cycle_view ''A'' 0 {})"
    by simp
  have self: "(''A'', ''A'') \<in> (transcludes_rel (nodes cycle_view))\<^sup>+"
    using render_cycle_on_path_only[of _ _ _ _ _ _ _ "CycleRow ''A'' 3 ''A''" cycle_view "''A''"] mem
    by simp
  let ?da = "graph_node ''A'' [''B'', ''C''] []"
  let ?db = "graph_node ''B'' [''D''] [''A'']"
  let ?dc = "graph_node ''C'' [''D''] [''A'']"
  let ?dd = "graph_node ''D'' [] [''B'', ''C'', ''E'']"
  have dia: "renderNode diamond_view ''A'' 0 {} =
       [TreeRow ''A'' 0 ''a'' False True True (Some True),
        TreeRow ''B'' 1 ''b'' False True True None,
        TreeRow ''D'' 2 ''d'' False False False None,
        TreeRow ''C'' 1 ''c'' False True True None,
        TreeRow ''D'' 2 ''d'' False False False None]"
    using render_cycle_on_path_only[where v = diamond_view and a = "''A''" and b = "''B''"
        and c = "''C''" and d = "''D''" and na = ?da and nb = ?db and nc = ?dc and nd = ?dd]
    by (simp add: diamond_view_def graph_node_def titleOr_def low)
  have html: "getTreeHtml diamond_view = Some
       [TreeRow ''A'' 0 ''a'' False True True (Some True),
        TreeRow ''B'' 1 ''b'' False True True None,
        TreeRow ''D'' 2 ''d'' False False False None,
        TreeRow ''C'' 1 ''c'' False True True None,
        TreeRow ''D'' 2 ''d'' False False False None,
        TreeRow ''E'' 0 ''e'' False True True (Some False),
        TreeRow ''D'' 1 ''d'' False False False None]"
    by (simp add: getTreeHtml_def dia)
      (simp add: renderNode.simps diamond_view_def graph_node_def titleOr_def low)
  from three mem self html dia show ?thesis by simp
qed

subsection \<open>The limit of pinned roots and the automatic pin\<close>

text \<open>
  Claim C5 does not hold of the code. \<^verbatim>\<open>autoPinOnInteraction\<close> and
  \<^verbatim>\<open>pinToCurrentFile\<close> append a root that is not pinned without comparing the number
  of pinned roots with \<^verbatim>\<open>MAX_PINNED_ROOTS\<close>, as the message \<^verbatim>\<open>togglePin\<close> does. With
  ten roots pinned and the root D of the active editor's tree shown as the eleventh
  root, expanding D (the message \<^verbatim>\<open>toggle\<close>), opening it (the message
  \<^verbatim>\<open>openFile\<close>) or the command \<^verbatim>\<open>pinToCurrentFile\<close> each leave eleven pinned roots.
\<close>

theorem autoPin_exceeds_limit:
  "length (pinnedRootIds (example_provider ten_roots (ten_roots @ [''D'']))) = MAX_PINNED_ROOTS
   \<and> pinnedRootIds (snd (onToggle ''D'' (example_provider ten_roots (ten_roots @ [''D'']))))
       = ten_roots @ [''D'']
   \<and> pinnedRootIds (snd (onOpenFile ''D'' (example_provider ten_roots (ten_roots @ [''D'']))))
       = ten_roots @ [''D'']
   \<and> pinnedRootIds (snd (pinToCurrentFile (Some ''D'')
         (example_provider ten_roots (ten_roots @ [''D'']))))
       = ten_roots @ [''D'']
   \<and> length (ten_roots @ [''D'']) = 11
   \<and> distinct (ten_roots @ [''D''])
   \<and> ''D'' \<in> set (expandedNodes (snd (onToggle ''D''
         (example_provider ten_roots (ten_roots @ [''D''])))))"
  by (simp add: example_provider_def ten_roots_def nine_roots_def MAX_PINNED_ROOTS_def
      onToggle_def onOpenFile_def pinToCurrentFile_def autoPinOnInteraction_def
      findRootForNode_def saveState_def set_add_def Let_def cycle_nodes_def graph_node_def)

subsection \<open>Revealing a node in a graph with a cycle\<close>

lemma findPath_cycle_diverges:
  "findPath k (example_provider [''D''] [''D'']) ''A'' = None
   \<and> findPath k (example_provider [''D''] [''D'']) ''B'' = None
   \<and> findPath k (example_provider [''D''] [''D'']) ''C'' = None"
proof (induction k)
  case 0
  then show ?case by simp
next
  case (Suc k)
  then show ?case
    by (simp add: example_provider_def cycle_nodes_def graph_node_def)
qed

text \<open>
  Claim C8 does not hold of the code. In the example graph D is a root and
  transcludes A, so a parent chain from a root down to A exists; but A is also
  transcluded by C, which comes first among the nodes, and A, B and C form a cycle.
  \<^verbatim>\<open>findPath\<close> follows C, then B, then A again, and so on: at no depth of calls does it
  return, and \<^verbatim>\<open>revealNode\<close> neither returns nor expands D.
\<close>

theorem revealNode_cycle_diverges:
  "revealNode k ''A'' (example_provider [''D''] [''D'']) = None
   \<and> currentRootIds (example_provider [''D''] [''D'']) = [''D'']
   \<and> (''D'', ''A'') \<in> transcludes_rel (nodes (example_provider [''D''] [''D'']))
   \<and> (''C'', ''A'') \<in> transcludes_rel (nodes (example_provider [''D''] [''D'']))"
proof -
  from findPath_cycle_diverges[of k]
  have "revealNode k ''A'' (example_provider [''D''] [''D'']) = None"
    by (simp add: revealNode_def)
  moreover have "currentRootIds (example_provider [''D''] [''D'']) = [''D'']"
    by (simp add: example_provider_def)
  moreover have "(''D'', ''A'') \<in> transcludes_rel (nodes (example_provider [''D''] [''D'']))"
    "(''C'', ''A'') \<in> transcludes_rel (nodes (example_provider [''D''] [''D'']))"
    by (simp_all add: transcludes_rel_def example_provider_def cycle_nodes_def graph_node_def)
  ultimately show ?thesis by simp
qed

subsection \<open>The nodes that \<^verbatim>\<open>buildGraph\<close> makes\<close>

lemma truthy_Some: "truthy v \<Longrightarrow> v = Some (the v)"
  by (cases v) (auto simp: truthy_def)

lemma resolutionMap_fst:
  "fst (resolutionMap cfg es ns) =
     (if list_all (\<lambda>e. truthy (uri e)) es then None else Some (Error ''Unexpected lack of uri''))"
  by (induction es arbitrary: ns) auto

lemma resolutionMap_keys:
  "fst ` set (snd (resolutionMap cfg es ns)) =
     fst ` set ns \<union> (\<lambda>e. the (uri e)) ` set (takeWhile (\<lambda>e. truthy (uri e)) es)"
  by (induction es arbitrary: ns) (auto simp: dom_update)

lemma resolutionMap_nodes:
  "map_of (snd (resolutionMap cfg es ns)) k = Some n \<Longrightarrow>
     map_of ns k = Some n
     \<or> (\<exists>e \<in> set (takeWhile (\<lambda>e. truthy (uri e)) es). uri e = Some k \<and> n = makeNode cfg e k)"
proof (induction es arbitrary: ns)
  case Nil
  then show ?case by simp
next
  case (Cons a es)
  show ?case
  proof (cases "truthy (uri a)")
    case False
    with Cons.prems show ?thesis by simp
  next
    case True
    let ?k = "the (uri a)"
    let ?ns1 = "AList.update ?k (makeNode cfg a ?k) ns"
    from True Cons.prems have "map_of (snd (resolutionMap cfg es ?ns1)) k = Some n" by simp
    from Cons.IH[OF this] show ?thesis
    proof
      assume m: "map_of ?ns1 k = Some n"
      show ?thesis
      proof (cases "k = ?k")
        case True
        with m have "n = makeNode cfg a k" by (simp add: update_conv')
        moreover from \<open>truthy (uri a)\<close> True have "uri a = Some k" using truthy_Some by auto
        ultimately show ?thesis using \<open>truthy (uri a)\<close> by auto
      next
        case False
        with m show ?thesis by (simp add: update_conv')
      qed
    next
      assume "\<exists>e\<in>set (takeWhile (\<lambda>e. truthy (uri e)) es). uri e = Some k \<and> n = makeNode cfg e k"
      with True show ?thesis by auto
    qed
  qed
qed

text \<open>A later entry with the same uri replaces the node of an earlier one: the
  node under a uri is made of the last entry that has it.\<close>

lemma resolutionMap_last:
  "map_of (snd (resolutionMap cfg es ns)) k =
     (case filter (\<lambda>e. uri e = Some k) (takeWhile (\<lambda>e. truthy (uri e)) es) of
        [] \<Rightarrow> map_of ns k
      | x # xs \<Rightarrow> Some (makeNode cfg (last (x # xs)) k))"
proof (induction es arbitrary: ns)
  case Nil
  then show ?case by simp
next
  case (Cons a es)
  show ?case
  proof (cases "truthy (uri a)")
    case False
    then show ?thesis by simp
  next
    case True
    let ?k = "the (uri a)"
    let ?ns1 = "AList.update ?k (makeNode cfg a ?k) ns"
    let ?later = "filter (\<lambda>e. uri e = Some k) (takeWhile (\<lambda>e. truthy (uri e)) es)"
    from True have ua: "uri a = Some ?k" by (rule truthy_Some)
    from True have res: "snd (resolutionMap cfg (a # es) ns) = snd (resolutionMap cfg es ?ns1)"
      by simp
    note ih = Cons.IH[of ?ns1]
    show ?thesis
    proof (cases "k = ?k")
      case same: True
      with ua have here: "uri a = Some k" by simp
      show ?thesis
      proof (cases ?later)
        case Nil
        with ih same have "map_of (snd (resolutionMap cfg es ?ns1)) k = Some (makeNode cfg a k)"
          by (simp add: update_conv')
        with res True here Nil show ?thesis by simp
      next
        case (Cons y ys)
        with ih have "map_of (snd (resolutionMap cfg es ?ns1)) k
            = Some (makeNode cfg (last (y # ys)) k)" by simp
        with res True here Cons show ?thesis by simp
      qed
    next
      case other: False
      with ua have nothere: "uri a \<noteq> Some k" by auto
      from other have "map_of ?ns1 k = map_of ns k" by (simp add: update_conv')
      with ih res True nothere show ?thesis by (simp split: list.splits)
    qed
  qed
qed

lemma addTransclusion_static:
  "map_option static_part (map_of (addTransclusion u t ns) k) = map_option static_part (map_of ns k)"
  by (auto simp: addTransclusion_def map_of_map_entry static_part_def split: option.splits)

lemma fold_addTransclusion_static:
  "map_option static_part (map_of (fold (addTransclusion u) ts ns) k)
     = map_option static_part (map_of ns k)"
  by (induction ts arbitrary: ns) (simp_all add: addTransclusion_static)

lemma parse_fold_static:
  "map_option static_part
     (map_of (fold (\<lambda>(u, node) acc.
                      case readFileSync (sourcePath (tree node)) of
                        None \<Rightarrow> acc
                      | Some content \<Rightarrow> fold (addTransclusion u) (scanContent content) acc)
                xs acc) k)
     = map_option static_part (map_of acc k)"
  by (induction xs arbitrary: acc)
     (auto simp: fold_addTransclusion_static split: option.splits)

lemma parseTransclusions_static:
  "map_option static_part (map_of (parseTransclusions readFileSync ns) k)
     = map_option static_part (map_of ns k)"
  by (simp add: parseTransclusions_def parse_fold_static)

lemma abbreviation_truthy_iff:
  "js_truthy (Some (getTaxonAbbreviation cfg tx)) \<longleftrightarrow> truthy tx"
proof (cases tx)
  case None
  then show ?thesis by (simp add: getTaxonAbbreviation_def truthy_def js_truthy_def)
next
  case (Some t)
  show ?thesis
  proof (cases "t = []")
    case True
    with Some show ?thesis by (simp add: getTaxonAbbreviation_def truthy_def js_truthy_def)
  next
    case False
    have tr: "\<And>v. truthy v \<Longrightarrow> js_truthy (Some (Str (the v)))"
      by (auto simp: truthy_def js_truthy_def split: option.splits)
    have jt: "\<And>v. js_truthy v \<Longrightarrow> js_truthy (Some (the v))"
      by (auto simp: js_truthy_def split: option.splits)
    from False have "js_truthy (Some (Str (toLowerCase (take 3 t))))"
      by (cases t) (auto simp: toLowerCase_def js_truthy_def)
    with Some False tr jt show ?thesis
      by (auto simp: getTaxonAbbreviation_def Let_def truthy_def)
  qed
qed

lemma abbreviation_Str_empty: "\<not> truthy tx \<Longrightarrow> getTaxonAbbreviation cfg tx = Str []"
  by (auto simp: getTaxonAbbreviation_def truthy_def split: option.splits)

lemma makeNode_title:
  "nodeTitle (makeNode cfg e u) =
     (if truthy (taxon e) then js_toString (getTaxonAbbreviation cfg (taxon e)) @ '': '' else [])
     @ (if truthy (title e) \<and> \<not> looksLikeUrl (the (title e)) then the (title e) else u)"
  using abbreviation_truthy_iff[of cfg "taxon e"] abbreviation_Str_empty[of "taxon e" cfg]
  by (auto simp: makeNode_def Let_def js_toString_def)

lemma nodes_expandOnInitialLoad: "nodes (expandOnInitialLoad q) = nodes q"
  by (simp add: expandOnInitialLoad_def)

lemma buildGraph_ok_nodes:
  assumes "buildGraph cfg readFileSync cur forestData p = (None, p')"
  shows "list_all (\<lambda>e. truthy (uri e)) forestData"
    and "nodes p' = parseTransclusions readFileSync (snd (resolutionMap cfg forestData []))"
proof -
  obtain r ns where rm: "resolutionMap cfg forestData [] = (r, ns)"
    by (cases "resolutionMap cfg forestData []")
  with assms have r: "r = None"
    by (cases r) (auto simp: buildGraph_def)
  with rm resolutionMap_fst[of cfg forestData "[]"]
  show "list_all (\<lambda>e. truthy (uri e)) forestData"
    by (auto split: if_splits)
  from assms rm r
  show "nodes p' = parseTransclusions readFileSync (snd (resolutionMap cfg forestData []))"
    by (auto simp: buildGraph_def Let_def nodes_expandOnInitialLoad)
qed

lemma buildGraph_throws:
  assumes "\<not> list_all (\<lambda>e. truthy (uri e)) forestData"
  shows "buildGraph cfg readFileSync cur forestData p =
     (Some (Error ''Unexpected lack of uri''),
      p\<lparr>nodes := snd (resolutionMap cfg forestData [])\<rparr>)"
proof -
  obtain r ns where rm: "resolutionMap cfg forestData [] = (r, ns)"
    by (cases "resolutionMap cfg forestData []")
  with assms resolutionMap_fst[of cfg forestData "[]"]
  have "r = Some (Error ''Unexpected lack of uri'')" by simp
  with rm show ?thesis by (simp add: buildGraph_def)
qed

lemma buildGraph_completes:
  assumes "list_all (\<lambda>e. truthy (uri e)) forestData"
  shows "fst (buildGraph cfg readFileSync cur forestData p) = None"
proof -
  obtain r ns where rm: "resolutionMap cfg forestData [] = (r, ns)"
    by (cases "resolutionMap cfg forestData []")
  with assms resolutionMap_fst[of cfg forestData "[]"] have "r = None" by simp
  with rm show ?thesis by (simp add: buildGraph_def Let_def)
qed

lemma js_toString_truthy: "js_truthy (Some v) \<Longrightarrow> js_toString v \<noteq> []"
  by (cases v) (auto simp: js_truthy_def js_toString_def)

text \<open>
  Claim C9, amended. In a forest whose uris are all present and not empty,
  \<^verbatim>\<open>buildGraph\<close> completes, and every tree of the forest has a node under its uri. The
  node is made of the last tree of the forest with that uri, which is the tree itself
  when the uris of the forest are distinct. Its display title is the base title,
  preceded by the taxon abbreviation and the separator \<open>: \<close> when the taxon is neither
  null nor empty; then the abbreviation, as it is written into the title, is not
  empty. The base title is the title when the title is neither null nor empty and
  contains neither \<open>http://\<close> nor \<open>https://\<close>, and the uri otherwise.
\<close>

theorem display_title:
  assumes "list_all (\<lambda>t. truthy (uri t)) forestData" and "entry \<in> set forestData"
  shows "\<exists>node source.
      fst (buildGraph cfg readFileSync cur forestData p) = None
      \<and> map_of (nodes (snd (buildGraph cfg readFileSync cur forestData p))) (the (uri entry))
          = Some node
      \<and> source = last (filter (\<lambda>t. uri t = uri entry) forestData)
      \<and> source \<in> set forestData \<and> uri source = uri entry
      \<and> (distinct (map uri forestData) \<longrightarrow> source = entry)
      \<and> tree node = source
      \<and> nodeTitle node =
          (if truthy (taxon source)
           then js_toString (getTaxonAbbreviation cfg (taxon source)) @ '': '' else [])
          @ (if truthy (title source) \<and> \<not> looksLikeUrl (the (title source))
             then the (title source) else the (uri source))
      \<and> (truthy (taxon source) \<longrightarrow> js_toString (getTaxonAbbreviation cfg (taxon source)) \<noteq> [])"
proof -
  let ?q = "snd (buildGraph cfg readFileSync cur forestData p)"
  let ?ns = "snd (resolutionMap cfg forestData [])"
  let ?k = "the (uri entry)"
  let ?same = "filter (\<lambda>t. uri t = uri entry) forestData"
  let ?source = "last ?same"
  from assms(1) have ok: "fst (buildGraph cfg readFileSync cur forestData p) = None"
    by (rule buildGraph_completes)
  then have bg: "buildGraph cfg readFileSync cur forestData p = (None, ?q)"
    by (cases "buildGraph cfg readFileSync cur forestData p") simp
  from buildGraph_ok_nodes(2)[OF bg] have ns: "nodes ?q = parseTransclusions readFileSync ?ns" .
  from assms have "truthy (uri entry)" by (simp add: list_all_iff)
  then have ue: "uri entry = Some ?k" by (rule truthy_Some)
  from assms(1) have tw: "takeWhile (\<lambda>e. truthy (uri e)) forestData = forestData"
    by (simp add: takeWhile_eq_all_conv list_all_iff)
  from assms(2) have ne: "?same \<noteq> []" by (auto simp: filter_empty_conv)
  then have in_same: "?source \<in> set ?same" by (rule last_in_set)
  then have src: "?source \<in> set forestData" and u: "uri ?source = uri entry" by simp_all
  from ne obtain x xs where same: "?same = x # xs" by (cases ?same) auto
  from resolutionMap_last[of cfg forestData "[]" ?k] tw ue same
  have look: "map_of ?ns ?k = Some (makeNode cfg ?source ?k)"
    by simp
  from parseTransclusions_static[of readFileSync ?ns ?k] look ns obtain node where
    node: "map_of (nodes ?q) ?k = Some node"
    and st: "static_part node = static_part (makeNode cfg ?source ?k)"
    by (cases "map_of (nodes ?q) ?k") auto
  from st have tr: "tree node = ?source"
    and ti: "nodeTitle node = nodeTitle (makeNode cfg ?source ?k)"
    by (simp_all add: static_part_def makeNode_def Let_def)
  have d: "distinct (map uri forestData) \<longrightarrow> ?source = entry"
  proof
    assume "distinct (map uri forestData)"
    then have "inj_on uri (set forestData)" by (simp add: distinct_map)
    with src assms(2) u show "?source = entry" by (auto dest: inj_onD)
  qed
  from ti u have ttl: "nodeTitle node =
          (if truthy (taxon ?source)
           then js_toString (getTaxonAbbreviation cfg (taxon ?source)) @ '': '' else [])
          @ (if truthy (title ?source) \<and> \<not> looksLikeUrl (the (title ?source))
             then the (title ?source) else the (uri ?source))"
    by (simp add: makeNode_title)
  have ab: "truthy (taxon ?source) \<longrightarrow>
      js_toString (getTaxonAbbreviation cfg (taxon ?source)) \<noteq> []"
    by (simp add: abbreviation_truthy_iff js_toString_truthy)
  from ok node src u d tr ttl ab show ?thesis by blast
qed

lemma scenario_built:
  "buildGraph [] scenario_files (Some ''a'') scenario_forest initial_provider =
     (None,
      \<lparr>nodes =
         [(''a'', \<lparr>tree = scenario_forest ! 0, nodeTitle = ''thm: Intro'',
                  transcludes = [''b''], transcludedBy = []\<rparr>),
          (''b'', \<lparr>tree = scenario_forest ! 1, nodeTitle = ''Lemma 1'',
                  transcludes = [], transcludedBy = [''a'']\<rparr>)],
       expandedNodes = [''a''], currentRootIds = [''a''], pinnedRootIds = [],
       focusMode = False, initialLoad = False, selectedNodeId = None,
       workspaceState = None, hasView = True\<rparr>)"
  by (simp add: buildGraph_def scenario_forest_def scenario_files_def initial_provider_def
      makeNode_def getTaxonAbbreviation_def getCustomTaxonConfig_def TAXON_MAP_def truthy_def
      get_property_def js_truthy_def js_toString_def
      toLowerCase_def toLowerCase_char_def upper_case_def lower_case_def
      looksLikeUrl_def startsWith_def parseTransclusions_def scanContent_def scanLine_def
      trimStart_def is_space_def match_at_def transclude_open_def addTransclusion_def
      set_add_def determineRoots_def findRoot_def findRoot_loop.simps
      expandOnInitialLoad_def)

lemma constructor_abbreviation:
  "getTaxonAbbreviation [] (Some ''Constructor'') = Member ''constructor''"
  by (simp add: getTaxonAbbreviation_def getCustomTaxonConfig_def TAXON_MAP_def truthy_def
      get_property_def js_truthy_def Object_prototype_def
      toLowerCase_def toLowerCase_char_def upper_case_def lower_case_def)

text \<open>
  In the scenario of the specification, the theorem a with the title Intro is shown
  as \<open>thm: Intro\<close>. Of two trees with the uri a, titled X and Y, the node is the one of
  the second. For the taxon \<open>Constructor\<close> the table of abbreviations answers with the
  function \<^verbatim>\<open>Object\<close>, and the title starts with its text.
\<close>

theorem display_title_witness:
  "list_all (\<lambda>t. truthy (uri t)) scenario_forest
   \<and> scenario_forest ! 0 \<in> set scenario_forest
   \<and> map_option nodeTitle
       (map_of (nodes (snd (buildGraph [] scenario_files (Some ''a'') scenario_forest
                              initial_provider))) ''a'')
     = Some ''thm: Intro''
   \<and> list_all (\<lambda>t. truthy (uri t)) [titled_tree ''a'' ''X'', titled_tree ''a'' ''Y'']
   \<and> map_option nodeTitle
       (map_of (nodes (snd (buildGraph [] (\<lambda>path. None) None
                              [titled_tree ''a'' ''X'', titled_tree ''a'' ''Y'']
                              initial_provider))) ''a'')
     = Some ''Y''
   \<and> list_all (\<lambda>t. truthy (uri t)) [constructor_tree]
   \<and> map_option nodeTitle
       (map_of (nodes (snd (buildGraph [] (\<lambda>path. None) None [constructor_tree]
                              initial_provider))) ''c'')
     = Some ''function Object() { [native code] }: X''"
proof -
  have all1: "list_all (\<lambda>t. truthy (uri t)) scenario_forest"
    and mem1: "scenario_forest ! 0 \<in> set scenario_forest"
    and u1: "the (uri (scenario_forest ! 0)) = ''a''"
    and last1: "last (filter (\<lambda>t. uri t = uri (scenario_forest ! 0)) scenario_forest)
        = scenario_forest ! 0"
    and tx1: "truthy (taxon (scenario_forest ! 0))"
    and ti1: "truthy (title (scenario_forest ! 0))" "the (title (scenario_forest ! 0)) = ''Intro''"
    by (simp_all add: scenario_forest_def truthy_def)
  have ab1: "getTaxonAbbreviation [] (taxon (scenario_forest ! 0)) = Str ''thm''"
    by (simp add: scenario_forest_def getTaxonAbbreviation_def getCustomTaxonConfig_def
        TAXON_MAP_def truthy_def get_property_def js_truthy_def
        toLowerCase_def toLowerCase_char_def upper_case_def lower_case_def)
  have nu1: "\<not> looksLikeUrl ''Intro''"
    by (simp add: looksLikeUrl_def startsWith_def)
  from display_title[OF all1 mem1, of "[]" scenario_files "Some ''a''" initial_provider]
  have 1: "map_option nodeTitle
       (map_of (nodes (snd (buildGraph [] scenario_files (Some ''a'') scenario_forest
                              initial_provider))) ''a'')
     = Some ''thm: Intro''"
    using u1 last1 tx1 ti1 ab1 nu1 by (auto simp: js_toString_def)
  let ?two = "[titled_tree ''a'' ''X'', titled_tree ''a'' ''Y'']"
  have all2: "list_all (\<lambda>t. truthy (uri t)) ?two"
    and mem2: "titled_tree ''a'' ''X'' \<in> set ?two"
    and u2: "the (uri (titled_tree ''a'' ''X'')) = ''a''"
    and last2: "last (filter (\<lambda>t. uri t = uri (titled_tree ''a'' ''X'')) ?two)
        = titled_tree ''a'' ''Y''"
    and tx2: "\<not> truthy (taxon (titled_tree ''a'' ''Y''))"
    and ti2: "truthy (title (titled_tree ''a'' ''Y''))" "the (title (titled_tree ''a'' ''Y'')) = ''Y''"
    by (simp_all add: titled_tree_def truthy_def)
  have nu2: "\<not> looksLikeUrl ''Y''"
    by (simp add: looksLikeUrl_def startsWith_def)
  from display_title[OF all2 mem2, of "[]" "\<lambda>path. None" None initial_provider]
  have 2: "map_option nodeTitle
       (map_of (nodes (snd (buildGraph [] (\<lambda>path. None) None ?two initial_provider))) ''a'')
     = Some ''Y''"
    using u2 last2 tx2 ti2 nu2 by auto
  have all3: "list_all (\<lambda>t. truthy (uri t)) [constructor_tree]"
    and mem3: "constructor_tree \<in> set [constructor_tree]"
    and u3: "the (uri constructor_tree) = ''c''"
    and tx3: "truthy (taxon constructor_tree)" "taxon constructor_tree = Some ''Constructor''"
    and ti3: "truthy (title constructor_tree)" "the (title constructor_tree) = ''X''"
    by (simp_all add: constructor_tree_def truthy_def)
  have nu3: "\<not> looksLikeUrl ''X''"
    by (simp add: looksLikeUrl_def startsWith_def)
  from display_title[OF all3 mem3, of "[]" "\<lambda>path. None" None initial_provider]
  have 3: "map_option nodeTitle
       (map_of (nodes (snd (buildGraph [] (\<lambda>path. None) None [constructor_tree]
                              initial_provider))) ''c'')
     = Some ''function Object() { [native code] }: X''"
    using u3 tx3 ti3 nu3 constructor_abbreviation by (auto simp: js_toString_def)
  from all1 mem1 1 all2 2 all3 3 show ?thesis by blast
qed

text \<open>
  Claim C9 as it is stated fails in four ways. A title that is the empty string is
  not null and contains no URL, yet the node of the first tree below is titled with
  its uri \<open>a\<close>. A taxon that is the empty string is present, yet the node of the second
  tree is titled \<open>T\<close> with no abbreviation and no separator before it. Of the two trees
  with the uri \<open>a\<close>, the first, titled \<open>X\<close>, has no node of its own: the node under its
  uri is titled \<open>Y\<close>. And the tree whose uri is the empty string has no node at all:
  \<^verbatim>\<open>buildGraph\<close> throws at it.
\<close>

theorem display_title_counterexample:
  "title empty_title_tree = Some [] \<and> \<not> looksLikeUrl [] \<and> uri empty_title_tree = Some ''a''
   \<and> map_option nodeTitle
       (map_of (nodes (snd (buildGraph [] (\<lambda>path. None) None
                              [empty_title_tree, empty_taxon_tree] initial_provider))) ''a'')
     = Some ''a''
   \<and> taxon empty_taxon_tree = Some [] \<and> title empty_taxon_tree = Some ''T''
   \<and> uri empty_taxon_tree = Some ''b''
   \<and> map_option nodeTitle
       (map_of (nodes (snd (buildGraph [] (\<lambda>path. None) None
                              [empty_title_tree, empty_taxon_tree] initial_provider))) ''b'')
     = Some ''T''
   \<and> title (titled_tree ''a'' ''X'') = Some ''X'' \<and> taxon (titled_tree ''a'' ''X'') = None
   \<and> \<not> looksLikeUrl ''X'' \<and> uri (titled_tree ''a'' ''X'') = Some ''a''
   \<and> map_option nodeTitle
       (map_of (nodes (snd (buildGraph [] (\<lambda>path. None) None
                              [titled_tree ''a'' ''X'', titled_tree ''a'' ''Y'']
                              initial_provider))) ''a'')
     = Some ''Y''
   \<and> uri empty_uri_tree = Some []
   \<and> buildGraph [] (\<lambda>path. None) None [empty_uri_tree] initial_provider
     = (Some (Error ''Unexpected lack of uri''), initial_provider)
   \<and> map_of (nodes initial_provider) [] = None"
  by (simp add: empty_title_tree_def empty_taxon_tree_def titled_tree_def empty_uri_tree_def
      initial_provider_def buildGraph_def
      makeNode_def getTaxonAbbreviation_def truthy_def js_truthy_def js_toString_def
      looksLikeUrl_def startsWith_def
      parseTransclusions_def determineRoots_def expandOnInitialLoad_def)
section \<open>Properties of the forest cache\<close>

subsection \<open>Coalescing of reads\<close>

lemma run_append:
  "run e (xs @ ys) s = (case run e xs s of None \<Rightarrow> None | Some s' \<Rightarrow> run e ys s')"
  by (induction xs arbitrary: s) (auto split: option.splits)

lemma queryForest_finish_cells:
  "\<exists>st. snd (queryForest_finish e out s) = s\<lparr>forestStatus := st\<rparr>"
  by (auto simp: queryForest_finish_def updateStatusBar_def Let_def split: resolution.splits)

lemma queryForest_start_cases:
  "queryForest_start e s =
     (case spawn_forester e of
        Some err \<Rightarrow> Inl err
      | None \<Rightarrow> Inr (s\<lparr>forestStatus := \<lparr>valid = None, updating = Some True, error = None\<rparr>\<rparr>))"
  by (simp add: queryForest_start_def updateStatusBar_def split: option.splits)

lemma tasks_update_ok:
  "\<forall>t \<in> set ts. task_ok f t \<Longrightarrow> task_ok f t' \<Longrightarrow> \<forall>t \<in> set (ts[i := t']). task_ok f t"
  using set_update_subset_insert[of ts i t'] by auto

lemma notifying_update:
  "Notifying \<in> set (ts[i := t']) \<Longrightarrow> t' \<noteq> Notifying \<Longrightarrow> Notifying \<in> set ts"
  using set_update_subset_insert[of ts i t'] by auto

lemma coalesced_call:
  assumes inv: "coalesced e s" and st: "step e (GetForest False False) s = Some s'"
  shows "coalesced e s'"
proof -
  from inv have "(fetches s = [] \<and> spawns s = 0 \<and> tasks s = [] \<and> queryInProgressPromise s = None
        \<and> mostRecentQueryResult s = None) \<or> (\<exists>f. coalesced_with e f s)"
    by (simp add: coalesced_def)
  then have "\<exists>f. coalesced_with e f s'"
  proof
    assume a: "fetches s = [] \<and> spawns s = 0 \<and> tasks s = [] \<and> queryInProgressPromise s = None
        \<and> mostRecentQueryResult s = None"
    show ?thesis
    proof (cases "spawn_forester e")
      case None
      with st a have "s' = s\<lparr>forestStatus := \<lparr>valid = None, updating = Some True, error = None\<rparr>,
          queryInProgressPromise := Some 0, fetches := [Running], spawns := 1,
          tasks := [AwaitOwn 0]\<rparr>"
        by (simp add: step_def getForest_call_def queryForest_start_cases)
      with a None have "coalesced_with e Running s'"
        by (simp add: coalesced_with_def task_ok_def)
      then show ?thesis by blast
    next
      case (Some err)
      with st a have "s' = s\<lparr>queryInProgressPromise := Some 0, fetches := [Rejected err],
          tasks := [AwaitOwn 0]\<rparr>"
        by (simp add: step_def getForest_call_def queryForest_start_cases)
      with a Some have "coalesced_with e (Rejected err) s'"
        by (simp add: coalesced_with_def task_ok_def)
      then show ?thesis by blast
    qed
  next
    assume "\<exists>f. coalesced_with e f s"
    then obtain f where f: "coalesced_with e f s" ..
    show ?thesis
    proof (cases "queryInProgressPromise s")
      case None
      with f obtain v where v: "mostRecentQueryResult s = Some v" and fv: "f = Resolved v"
        by (auto simp: coalesced_with_def)
      with st None have "s' = s\<lparr>tasks := tasks s @ [Done v]\<rparr>"
        by (simp add: step_def getForest_call_def)
      with f fv have "coalesced_with e f s'"
        by (auto simp: coalesced_with_def task_ok_def)
      then show ?thesis by blast
    next
      case (Some n)
      with f have n: "n = 0" by (auto simp: coalesced_with_def)
      with st Some have "s' = s\<lparr>tasks := tasks s @ [Joined 0]\<rparr>"
        by (simp add: step_def getForest_call_def)
      with f have "coalesced_with e f s'"
        by (auto simp: coalesced_with_def task_ok_def)
      then show ?thesis by blast
    qed
  qed
  then show ?thesis by (simp add: coalesced_def)
qed

text \<open>The fetch as the end of its process leaves it.\<close>

lemma coalesced_outcome:
  assumes inv: "coalesced e s" and st: "step e (Outcome n out) s = Some s'"
  shows "coalesced_with e (settle (fst (queryForest_finish e out s))) s'"
proof -
  let ?f = "settle (fst (queryForest_finish e out s))"
  from queryForest_finish_cells[of e out s] obtain st1 where
    fin: "snd (queryForest_finish e out s) = s\<lparr>forestStatus := st1\<rparr>" by blast
  obtain result s1 where q: "queryForest_finish e out s = (result, s1)"
    by (cases "queryForest_finish e out s")
  with fin have s1: "s1 = s\<lparr>forestStatus := st1\<rparr>" by simp
  from st q have n: "n < length (fetches s)" "fetches s ! n = Running"
    and s': "s' = s1\<lparr>fetches := (fetches s1)[n := ?f]\<rparr>"
    by (auto simp: step_def split: if_splits)
  from inv n obtain f where f: "coalesced_with e f s" by (auto simp: coalesced_def)
  with n have fr: "f = Running" "n = 0" by (auto simp: coalesced_with_def)
  from f fr have sp: "spawn_forester e = None" "spawns s = 1"
    by (cases "spawn_forester e"; simp add: coalesced_with_def)+
  from f fr have none: "mostRecentQueryResult s = None"
    by (cases "mostRecentQueryResult s") (auto simp: coalesced_with_def)
  from f fr have waiting: "\<forall>t \<in> set (tasks s). task_ok Running t"
    by (simp add: coalesced_with_def)
  then have ok: "\<forall>t \<in> set (tasks s). task_ok ?f t"
    by (auto simp: task_ok_def split: task.splits)
  from waiting have nn: "Notifying \<notin> set (tasks s)"
    by (auto simp: task_ok_def)
  from f fr none have pr: "queryInProgressPromise s = Some 0"
    by (auto simp: coalesced_with_def)
  from f fr have fs: "fetches s = [Running]" by (simp add: coalesced_with_def)
  from fs fr sp none ok nn pr s' s1 show ?thesis
    by (simp add: coalesced_with_def)
qed

lemma coalesced_resume:
  assumes inv: "coalesced e s" and st: "step e (Resume i) s = Some s'"
  shows "coalesced e s'"
proof -
  from st obtain t s1 where i: "i < length (tasks s)"
    and r: "resume e (tasks s ! i) s = Some (t, s1)"
    and s': "s' = s1\<lparr>tasks := (tasks s1)[i := t]\<rparr>"
    by (auto simp: step_def split: if_splits option.splits)
  from i inv obtain f where f: "coalesced_with e f s" by (auto simp: coalesced_def)
  then have fs: "fetches s = [f]"
    and sp: "\<forall>err. spawn_forester e = Some err \<longrightarrow> f = Rejected err"
      "spawns s = (if spawn_forester e = None then 1 else 0)"
    and ok: "\<forall>t \<in> set (tasks s). task_ok f t"
    and pr: "queryInProgressPromise s = Some 0
          \<or> queryInProgressPromise s = None \<and> mostRecentQueryResult s \<noteq> None"
    and lg: "\<And>v. mostRecentQueryResult s = Some v \<Longrightarrow> f = Resolved v"
    and nt: "Notifying \<in> set (tasks s) \<Longrightarrow> mostRecentQueryResult s \<noteq> None"
    by (auto simp: coalesced_with_def)
  from i have mem: "tasks s ! i \<in> set (tasks s)" by simp
  with ok have tok: "task_ok f (tasks s ! i)" by blast
  have settle: "coalesced_with e f (s\<lparr>tasks := (tasks s)[i := t']\<rparr>)"
    if "task_ok f t'" and "t' \<noteq> Notifying" for t'
  proof -
    have "\<forall>t \<in> set ((tasks s)[i := t']). task_ok f t"
      by (rule tasks_update_ok[OF ok that(1)])
    moreover have "Notifying \<in> set ((tasks s)[i := t']) \<Longrightarrow> mostRecentQueryResult s \<noteq> None"
      using notifying_update[OF _ that(2), of "tasks s" i] nt by blast
    ultimately show ?thesis using fs sp pr lg
      by (auto simp: coalesced_with_def)
  qed
  have "coalesced_with e f s'"
  proof (cases "tasks s ! i")
    case (AwaitOwn n)
    with tok have n: "n = 0" by (simp add: task_ok_def)
    show ?thesis
    proof (cases f)
      case Running
      with r AwaitOwn n fs show ?thesis by (simp add: resume_def)
    next
      case (Resolved v)
      with r AwaitOwn n fs have t: "t = Notifying"
        and s1: "s1 = s\<lparr>mostRecentQueryResult := Some v, notifications := notifications s + 1\<rparr>"
        by (auto simp: resume_def)
      have "\<forall>t \<in> set ((tasks s)[i := Notifying]). task_ok f t"
        by (rule tasks_update_ok[OF ok]) (simp add: task_ok_def Resolved)
      with fs sp pr Resolved t s1 s' show ?thesis
        by (auto simp: coalesced_with_def)
    next
      case (Rejected err)
      with r AwaitOwn n fs have t: "t = Failed err" and s1: "s1 = s"
        by (auto simp: resume_def)
      from settle[of "Failed err"] Rejected t s1 s' show ?thesis
        by (simp add: task_ok_def)
    qed
  next
    case Notifying
    with mem nt obtain v where v: "mostRecentQueryResult s = Some v"
      by (cases "mostRecentQueryResult s") auto
    from lg[OF v] have fv: "f = Resolved v" .
    from r Notifying v have t: "t = Done v"
      and s1: "s1 = s\<lparr>isInitialLoad := False, queryInProgressPromise := None\<rparr>"
      by (auto simp: resume_def)
    have okk: "\<forall>t \<in> set ((tasks s)[i := Done v]). task_ok f t"
      by (rule tasks_update_ok[OF ok]) (simp add: task_ok_def fv)
    from fs sp v fv t s1 s' okk show ?thesis
      by (auto simp: coalesced_with_def)
  next
    case (Joined n)
    with tok have n: "n = 0" by (simp add: task_ok_def)
    show ?thesis
    proof (cases f)
      case Running
      with r Joined n fs show ?thesis by (simp add: resume_def)
    next
      case (Resolved v)
      with r Joined n fs have t: "t = Done v" and s1: "s1 = s"
        by (auto simp: resume_def)
      from settle[of "Done v"] Resolved t s1 s' show ?thesis
        by (simp add: task_ok_def)
    next
      case (Rejected err)
      with r Joined n fs have t: "t = Failed err" and s1: "s1 = s"
        by (auto simp: resume_def)
      from settle[of "Failed err"] Rejected t s1 s' show ?thesis
        by (simp add: task_ok_def)
    qed
  next
    case (AwaitInFlight n)
    with tok show ?thesis by (simp add: task_ok_def)
  next
    case (Done v)
    with r show ?thesis by (simp add: resume_def)
  next
    case (Failed err)
    with r show ?thesis by (simp add: resume_def)
  qed
  then show ?thesis by (auto simp: coalesced_def)
qed

lemma coalesced_step:
  assumes pl: "plain_reads [ev]" and inv: "coalesced e s" and st: "step e ev s = Some s'"
  shows "coalesced e s'"
proof (cases ev)
  case (GetForest fr stale)
  with pl have "ev = GetForest False False" by (simp add: plain_reads_def)
  with coalesced_call[OF inv] st show ?thesis by simp
next
  case ForestUpdatedOnDisk
  with pl show ?thesis by (simp add: plain_reads_def)
next
  case (Outcome n out)
  with coalesced_outcome[OF inv] st show ?thesis by (auto simp: coalesced_def)
next
  case (Resume i)
  with coalesced_resume[OF inv] st show ?thesis by simp
qed

lemma coalesced_run:
  "plain_reads evs \<Longrightarrow> coalesced e s \<Longrightarrow> run e evs s = Some s' \<Longrightarrow> coalesced e s'"
proof (induction evs arbitrary: s)
  case Nil
  then show ?case by simp
next
  case (Cons ev evs)
  from Cons.prems(3) obtain s1 where s1: "step e ev s = Some s1" and r: "run e evs s1 = Some s'"
    by (auto split: option.splits)
  from Cons.prems(1) have p1: "plain_reads [ev]" and p2: "plain_reads evs"
    by (simp_all add: plain_reads_def)
  from coalesced_step[OF p1 Cons.prems(2) s1] have "coalesced e s1" .
  from Cons.IH[OF p2 this r] show ?case .
qed

lemma coalesced_initial: "coalesced e initial_sys"
  by (simp add: coalesced_def initial_sys_def)

text \<open>Without new calls the tasks stay the same in number, and a task that is
  settled stays as it is.\<close>

lemma no_calls_step_tasks:
  assumes nc: "no_calls [ev]" and st: "step e ev s = Some s'"
  shows "length (tasks s') = length (tasks s)
      \<and> (j < length (tasks s) \<longrightarrow> settled_as f (tasks s ! j) \<longrightarrow> tasks s' ! j = tasks s ! j)"
proof (cases ev)
  case (GetForest fr stale)
  with nc show ?thesis by (simp add: no_calls_def)
next
  case ForestUpdatedOnDisk
  with nc show ?thesis by (simp add: no_calls_def)
next
  case (Outcome n out)
  from queryForest_finish_cells[of e out s] obtain st1 where
    fin: "snd (queryForest_finish e out s) = s\<lparr>forestStatus := st1\<rparr>" by blast
  obtain result s1 where q: "queryForest_finish e out s = (result, s1)"
    by (cases "queryForest_finish e out s")
  with fin have s1: "s1 = s\<lparr>forestStatus := st1\<rparr>" by simp
  from st Outcome q s1 have "tasks s' = tasks s"
    by (auto simp: step_def split: if_splits)
  then show ?thesis by simp
next
  case (Resume i)
  from st Resume obtain t s1 where i: "i < length (tasks s)"
    and r: "resume e (tasks s ! i) s = Some (t, s1)"
    and s': "s' = s1\<lparr>tasks := (tasks s1)[i := t]\<rparr>"
    by (auto simp: step_def split: if_splits option.splits)
  from r have ts: "tasks s1 = tasks s"
    by (auto simp: resume_def getForest_call_def queryForest_start_cases
        split: task.splits if_splits fetch.splits option.splits)
  from r have nd: "\<not> settled_as f (tasks s ! i)"
    by (auto simp: resume_def settled_as_def split: fetch.splits)
  have "settled_as f (tasks s ! j) \<Longrightarrow> (tasks s)[i := t] ! j = tasks s ! j"
  proof -
    assume "settled_as f (tasks s ! j)"
    with nd have "i \<noteq> j" by auto
    then show ?thesis by simp
  qed
  with ts s' show ?thesis by simp
qed

lemma no_calls_run_tasks:
  "no_calls evs \<Longrightarrow> run e evs s = Some s' \<Longrightarrow>
     length (tasks s') = length (tasks s)
     \<and> (j < length (tasks s) \<longrightarrow> settled_as f (tasks s ! j) \<longrightarrow> tasks s' ! j = tasks s ! j)"
proof (induction evs arbitrary: s)
  case Nil
  then show ?case by simp
next
  case (Cons ev evs)
  from Cons.prems(2) obtain s1 where s1: "step e ev s = Some s1" and r: "run e evs s1 = Some s'"
    by (auto split: option.splits)
  from Cons.prems(1) have p1: "no_calls [ev]" and p2: "no_calls evs"
    by (simp_all add: no_calls_def)
  from no_calls_step_tasks[OF p1 s1, of j f] Cons.IH[OF p2 r] show ?case by auto
qed

lemma no_calls_plain: "no_calls evs \<Longrightarrow> plain_reads evs"
  by (induction evs) (auto simp: no_calls_def plain_reads_def split: event.splits)

lemma no_calls_append: "no_calls xs \<Longrightarrow> no_calls ys \<Longrightarrow> no_calls (xs @ ys)"
  by (simp add: no_calls_def)

text \<open>Once the fetch is settled, a task is settled as the fetch is after at most two
  of its own steps.\<close>

lemma task_progress_settled:
  assumes inv: "coalesced_with e f s" and nr: "f \<noteq> Running" and i: "i < length (tasks s)"
  shows "\<exists>evs s'. no_calls evs \<and> run e evs s = Some s' \<and> settled_as f (tasks s' ! i)"
proof -
  from inv have fs: "fetches s = [f]"
    and ok: "\<forall>t \<in> set (tasks s). task_ok f t"
    and nt: "Notifying \<in> set (tasks s) \<Longrightarrow> mostRecentQueryResult s \<noteq> None"
    and lg: "\<And>w. mostRecentQueryResult s = Some w \<Longrightarrow> f = Resolved w"
    by (auto simp: coalesced_with_def)
  from i have mem: "tasks s ! i \<in> set (tasks s)" by simp
  with ok have tok: "task_ok f (tasks s ! i)" by blast
  have one: "\<exists>evs s'. no_calls evs \<and> run e evs s = Some s' \<and> settled_as f (tasks s' ! i)"
    if "step e (Resume i) s = Some (s\<lparr>tasks := (tasks s)[i := t']\<rparr>)" and "settled_as f t'"
    for t'
  proof -
    let ?s2 = "s\<lparr>tasks := (tasks s)[i := t']\<rparr>"
    from that(1) have "run e [Resume i] s = Some ?s2" by simp
    moreover have "no_calls [Resume i]" by (simp add: no_calls_def)
    moreover from that(2) i have "settled_as f (tasks ?s2 ! i)" by simp
    ultimately show ?thesis by blast
  qed
  show ?thesis
  proof (cases "tasks s ! i")
    case (AwaitOwn n)
    with tok have n: "n = 0" by (simp add: task_ok_def)
    show ?thesis
    proof (cases f)
      case Running
      with nr show ?thesis by simp
    next
      case (Resolved v)
      let ?s1 = "s\<lparr>mostRecentQueryResult := Some v, notifications := notifications s + 1,
          tasks := (tasks s)[i := Notifying]\<rparr>"
      have 1: "step e (Resume i) s = Some ?s1"
        using AwaitOwn n fs i Resolved by (simp add: step_def resume_def)
      let ?s2 = "?s1\<lparr>isInitialLoad := False, queryInProgressPromise := None,
          tasks := (tasks ?s1)[i := Done v]\<rparr>"
      have 2: "step e (Resume i) ?s1 = Some ?s2"
        using i by (simp add: step_def resume_def)
      have "run e [Resume i, Resume i] s = Some ?s2" using 1 2 by simp
      moreover have "no_calls [Resume i, Resume i]" by (simp add: no_calls_def)
      moreover have "settled_as f (tasks ?s2 ! i)" using i Resolved by (simp add: settled_as_def)
      ultimately show ?thesis by blast
    next
      case (Rejected err)
      have "step e (Resume i) s = Some (s\<lparr>tasks := (tasks s)[i := Failed err]\<rparr>)"
        using AwaitOwn n fs i Rejected by (simp add: step_def resume_def)
      from one[OF this] Rejected show ?thesis by (simp add: settled_as_def)
    qed
  next
    case Notifying
    with mem nt obtain w where w: "mostRecentQueryResult s = Some w"
      by (cases "mostRecentQueryResult s") auto
    from lg[OF w] have fw: "f = Resolved w" .
    let ?s2 = "s\<lparr>isInitialLoad := False, queryInProgressPromise := None,
        tasks := (tasks s)[i := Done w]\<rparr>"
    have "step e (Resume i) s = Some ?s2"
      using Notifying w i by (simp add: step_def resume_def)
    then have "run e [Resume i] s = Some ?s2" by simp
    moreover have "no_calls [Resume i]" by (simp add: no_calls_def)
    moreover have "settled_as f (tasks ?s2 ! i)" using i fw by (simp add: settled_as_def)
    ultimately show ?thesis by blast
  next
    case (Joined n)
    with tok have n: "n = 0" by (simp add: task_ok_def)
    show ?thesis
    proof (cases f)
      case Running
      with nr show ?thesis by simp
    next
      case (Resolved v)
      have "step e (Resume i) s = Some (s\<lparr>tasks := (tasks s)[i := Done v]\<rparr>)"
        using Joined n fs i Resolved by (simp add: step_def resume_def)
      from one[OF this] Resolved show ?thesis by (simp add: settled_as_def)
    next
      case (Rejected err)
      have "step e (Resume i) s = Some (s\<lparr>tasks := (tasks s)[i := Failed err]\<rparr>)"
        using Joined n fs i Rejected by (simp add: step_def resume_def)
      from one[OF this] Rejected show ?thesis by (simp add: settled_as_def)
    qed
  next
    case (AwaitInFlight n)
    with tok show ?thesis by (simp add: task_ok_def)
  next
    case (Done w)
    with tok have "settled_as f (tasks s ! i)" by (simp add: task_ok_def settled_as_def)
    then have "run e [] s = Some s \<and> no_calls [] \<and> settled_as f (tasks s ! i)"
      by (simp add: no_calls_def)
    then show ?thesis by blast
  next
    case (Failed err)
    with tok have "settled_as f (tasks s ! i)" by (simp add: task_ok_def settled_as_def)
    then have "run e [] s = Some s \<and> no_calls [] \<and> settled_as f (tasks s ! i)"
      by (simp add: no_calls_def)
    then show ?thesis by blast
  qed
qed

text \<open>A fetch that is settled stays as it is.\<close>

lemma settled_fetch_step:
  assumes nc: "no_calls [ev]" and inv: "coalesced_with e f s" and nr: "f \<noteq> Running"
    and st: "step e ev s = Some s'"
  shows "coalesced_with e f s'"
proof -
  from inv have c: "coalesced e s" by (auto simp: coalesced_def)
  from coalesced_step[OF no_calls_plain[OF nc] c st] have c': "coalesced e s'" .
  from inv have fs: "fetches s = [f]" and ok: "\<forall>t \<in> set (tasks s). task_ok f t"
    by (simp_all add: coalesced_with_def)
  have "fetches s' = [f]"
  proof (cases ev)
    case (GetForest fr stale)
    with nc show ?thesis by (simp add: no_calls_def)
  next
    case ForestUpdatedOnDisk
    with nc show ?thesis by (simp add: no_calls_def)
  next
    case (Outcome n out)
    with st fs nr show ?thesis
      by (auto simp: step_def split: if_splits)
  next
    case (Resume i)
    from st Resume obtain t s2 where i: "i < length (tasks s)"
      and rr: "resume e (tasks s ! i) s = Some (t, s2)"
      and s': "s' = s2\<lparr>tasks := (tasks s2)[i := t]\<rparr>"
      by (auto simp: step_def split: if_splits option.splits)
    from i ok have "task_ok f (tasks s ! i)" by simp
    with rr fs have "fetches s2 = [f]"
      by (auto simp: resume_def task_ok_def split: task.splits if_splits fetch.splits)
    with s' show ?thesis by simp
  qed
  with c' show ?thesis by (auto simp: coalesced_def coalesced_with_def)
qed

lemma settled_fetch_run:
  "no_calls evs \<Longrightarrow> coalesced_with e f s \<Longrightarrow> f \<noteq> Running \<Longrightarrow> run e evs s = Some s'
     \<Longrightarrow> coalesced_with e f s'"
proof (induction evs arbitrary: s)
  case Nil
  then show ?case by simp
next
  case (Cons ev evs)
  from Cons.prems(4) obtain s1 where s1: "step e ev s = Some s1" and r: "run e evs s1 = Some s'"
    by (auto split: option.splits)
  from Cons.prems(1) have p1: "no_calls [ev]" and p2: "no_calls evs"
    by (simp_all add: no_calls_def)
  from settled_fetch_step[OF p1 Cons.prems(2,3) s1] have "coalesced_with e f s1" .
  from Cons.IH[OF p2 this Cons.prems(3) r] show ?case .
qed

lemma all_tasks_progress:
  assumes inv: "coalesced_with e f s" and nr: "f \<noteq> Running"
  shows "n \<le> length (tasks s) \<Longrightarrow>
     \<exists>evs s'. no_calls evs \<and> run e evs s = Some s' \<and> coalesced_with e f s'
        \<and> length (tasks s') = length (tasks s)
        \<and> (\<forall>j < n. settled_as f (tasks s' ! j))"
proof (induction n)
  case 0
  have "run e [] s = Some s \<and> no_calls []" by (simp add: no_calls_def)
  with inv show ?case by (metis less_nat_zero_code)
next
  case (Suc n)
  then obtain evs s1 where nc: "no_calls evs" and r: "run e evs s = Some s1"
    and c1: "coalesced_with e f s1" and len: "length (tasks s1) = length (tasks s)"
    and dall: "\<forall>j < n. settled_as f (tasks s1 ! j)"
    by auto
  from Suc.prems len have n: "n < length (tasks s1)" by simp
  from task_progress_settled[OF c1 nr n] obtain evs2 s2 where
    nc2: "no_calls evs2" and r2: "run e evs2 s1 = Some s2" and dn: "settled_as f (tasks s2 ! n)"
    by blast
  have r12: "run e (evs @ evs2) s = Some s2" using r r2 by (simp add: run_append)
  have nc12: "no_calls (evs @ evs2)" using nc nc2 by (rule no_calls_append)
  have c2: "coalesced_with e f s2"
    by (rule settled_fetch_run[OF nc2 c1 nr r2])
  have len2: "length (tasks s2) = length (tasks s)"
    using no_calls_run_tasks[OF nc2 r2] len by simp
  have "\<forall>j < Suc n. settled_as f (tasks s2 ! j)"
  proof (intro allI impI)
    fix j assume j: "j < Suc n"
    show "settled_as f (tasks s2 ! j)"
    proof (cases "j = n")
      case True
      with dn show ?thesis by simp
    next
      case False
      with j have jn: "j < n" by simp
      with dall have sj: "settled_as f (tasks s1 ! j)" by simp
      moreover from jn n have "j < length (tasks s1)" by simp
      ultimately have "tasks s2 ! j = tasks s1 ! j"
        using no_calls_run_tasks[OF nc2 r2, of j f] by simp
      with sj show ?thesis by simp
    qed
  qed
  with r12 nc12 c2 len2 show ?case by blast
qed

lemma settled_as_unique: "settled_as f t \<Longrightarrow> settled_as f t' \<Longrightarrow> t = t'"
  by (cases f) (auto simp: settled_as_def)

lemma coalesced_facts:
  assumes "coalesced e s"
  shows "length (fetches s) \<le> 1" and "in_flight s \<le> 1" and "spawns s \<le> 1"
    and "tasks s \<noteq> [] \<Longrightarrow>
           length (fetches s) = 1 \<and> spawns s = (if spawn_forester e = None then 1 else 0)"
    and "t \<in> set (tasks s) \<Longrightarrow> t = Done v \<Longrightarrow> fetches s = [Resolved v]"
    and "t \<in> set (tasks s) \<Longrightarrow> t = Failed err \<Longrightarrow> fetches s = [Rejected err]"
    and "tasks s \<noteq> [] \<Longrightarrow> spawn_forester e = Some err' \<Longrightarrow> fetches s = [Rejected err']"
proof -
  from assms show "length (fetches s) \<le> 1"
    by (auto simp: coalesced_def coalesced_with_def)
  from assms show "in_flight s \<le> 1"
    by (auto simp: coalesced_def coalesced_with_def in_flight_def)
  from assms show "spawns s \<le> 1"
    by (auto simp: coalesced_def coalesced_with_def)
  { assume "tasks s \<noteq> []"
    with assms obtain f where "coalesced_with e f s" by (auto simp: coalesced_def)
    then have "length (fetches s) = 1 \<and> spawns s = (if spawn_forester e = None then 1 else 0)"
      by (simp add: coalesced_with_def) }
  then show "tasks s \<noteq> [] \<Longrightarrow>
           length (fetches s) = 1 \<and> spawns s = (if spawn_forester e = None then 1 else 0)" .
  { assume "t \<in> set (tasks s)" and "t = Done v"
    with assms show "fetches s = [Resolved v]"
      by (auto simp: coalesced_def coalesced_with_def task_ok_def) }
  { assume "t \<in> set (tasks s)" and "t = Failed err"
    with assms show "fetches s = [Rejected err]"
      by (auto simp: coalesced_def coalesced_with_def task_ok_def) }
  { assume "tasks s \<noteq> []" and "spawn_forester e = Some err'"
    with assms show "fetches s = [Rejected err']"
      by (auto simp: coalesced_def coalesced_with_def) }
qed

lemma settled_fetch_settles:
  assumes inv: "coalesced_with e f s" and nr: "f \<noteq> Running"
  shows "\<exists>evs s' t. no_calls evs \<and> run e evs s = Some s'
      \<and> tasks s' = replicate (length (tasks s)) t \<and> settled_as f t \<and> fetches s' = [f]"
proof -
  from all_tasks_progress[OF inv nr, of "length (tasks s)"] obtain evs s' where
    nc: "no_calls evs" and r: "run e evs s = Some s'"
    and c: "coalesced_with e f s'"
    and len: "length (tasks s') = length (tasks s)"
    and all: "\<forall>j < length (tasks s). settled_as f (tasks s' ! j)" by auto
  from nr obtain t where t: "settled_as f t"
    by (cases f) (auto simp: settled_as_def)
  have "tasks s' = replicate (length (tasks s)) t"
    using len all settled_as_unique[OF _ t] by (intro nth_equalityI) simp_all
  moreover from c have "fetches s' = [f]" by (simp add: coalesced_with_def)
  ultimately show ?thesis using nc r t by blast
qed

text \<open>However the query ends, the calls can all be settled as its promise is.\<close>

lemma running_fetch_settles:
  assumes inv: "coalesced e s" and run: "fetches s = [Running]"
  shows "\<exists>evs s' t. no_calls evs \<and> run e (Outcome 0 out # evs) s = Some s'
      \<and> tasks s' = replicate (length (tasks s)) t
      \<and> settled_as (settle (fst (queryForest_finish e out s))) t
      \<and> fetches s' = [settle (fst (queryForest_finish e out s))]"
proof -
  let ?f = "settle (fst (queryForest_finish e out s))"
  obtain result s1 where q: "queryForest_finish e out s = (result, s1)"
    by (cases "queryForest_finish e out s")
  with run obtain s2 where st: "step e (Outcome 0 out) s = Some s2"
    by (simp add: step_def)
  from coalesced_outcome[OF inv st] have c: "coalesced_with e ?f s2" .
  have nr: "?f \<noteq> Running" by (simp add: settle_def split: sum.splits)
  have "no_calls [Outcome 0 out]" by (simp add: no_calls_def)
  from no_calls_step_tasks[OF this st] have len: "length (tasks s2) = length (tasks s)" by simp
  from settled_fetch_settles[OF c nr] obtain evs s' t where
    "no_calls evs" and "run e evs s2 = Some s'"
    and "tasks s' = replicate (length (tasks s2)) t" and "settled_as ?f t"
    and "fetches s' = [?f]" by blast
  with st len show ?thesis by auto
qed

text \<open>
  Claim C1, amended. Start with nothing cached and no fetch in progress, and let any
  number of calls of \<^verbatim>\<open>getForest\<close> that are neither forced nor stale happen in any
  interleaving with the end of the query and the continuations of the calls. In every
  state that such a schedule reaches: \<^verbatim>\<open>queryForest\<close> has been called at most once, and
  exactly once as soon as one call was made; it has spawned one process, or none where
  it threw before (as \<^verbatim>\<open>getRoot\<close> does without a workspace folder, and then its promise
  is rejected with the error of \<^verbatim>\<open>getRoot\<close>); at most one fetch is in flight; every call
  that has resolved has resolved to the forest that this one call of \<^verbatim>\<open>queryForest\<close>
  returned, and every call that was rejected was rejected with the exception that it
  threw. The calls can all be settled, and alike. Once the promise of \<^verbatim>\<open>queryForest\<close> is
  settled, some continuation of the schedule without new calls ends with every call
  resolved to its forest, if it was resolved, and with every call rejected with its
  exception otherwise. While the fetch is running, the same holds for every way in
  which the query can end: after it, every call can be resolved to the forest that
  \<^verbatim>\<open>queryForest\<close> returns for that outcome.
\<close>

theorem getForest_single_flight:
  assumes "plain_reads evs" and "run e evs initial_sys = Some s"
  shows "queryForest_calls s \<le> 1 \<and> in_flight s \<le> 1 \<and> adapter_invocations s \<le> 1
     \<and> (tasks s \<noteq> [] \<longrightarrow>
          queryForest_calls s = 1
          \<and> adapter_invocations s = (if spawn_forester e = None then 1 else 0))
     \<and> (\<forall>t \<in> set (tasks s).
          (\<forall>v. t = Done v \<longrightarrow> fetches s = [Resolved v])
          \<and> (\<forall>err. t = Failed err \<longrightarrow> fetches s = [Rejected err]))
     \<and> (\<forall>err. getRoot e = Inl err \<longrightarrow> tasks s \<noteq> [] \<longrightarrow> fetches s = [Rejected err])
     \<and> (\<forall>f. fetches s = [f] \<longrightarrow> f \<noteq> Running \<longrightarrow>
          (\<exists>evs' s' t. no_calls evs' \<and> run e evs' s = Some s'
             \<and> tasks s' = replicate (length (tasks s)) t \<and> settled_as f t
             \<and> fetches s' = [f]))
     \<and> (fetches s = [Running] \<longrightarrow>
          (\<forall>out. \<exists>evs' s' t. no_calls evs' \<and> run e (Outcome 0 out # evs') s = Some s'
             \<and> tasks s' = replicate (length (tasks s)) t
             \<and> settled_as (settle (fst (queryForest_finish e out s))) t
             \<and> fetches s' = [settle (fst (queryForest_finish e out s))]))"
proof -
  from coalesced_run[OF assms(1) coalesced_initial assms(2)] have c: "coalesced e s" .
  have root: "getRoot e = Inl err \<Longrightarrow> spawn_forester e = Some err" for err
    by (simp add: spawn_forester_def)
  have settled: "\<exists>evs' s' t. no_calls evs' \<and> run e evs' s = Some s'
             \<and> tasks s' = replicate (length (tasks s)) t \<and> settled_as f t
             \<and> fetches s' = [f]"
    if "fetches s = [f]" and "f \<noteq> Running" for f
  proof -
    from c that(1) have "coalesced_with e f s"
      by (auto simp: coalesced_def coalesced_with_def)
    from settled_fetch_settles[OF this that(2)] show ?thesis .
  qed
  from coalesced_facts(1-4)[OF c] coalesced_facts(5,6)[OF c] coalesced_facts(7)[OF c] root
    settled running_fetch_settles[OF c]
  show ?thesis
    unfolding queryForest_calls_def adapter_invocations_def by (intro conjI) blast+
qed

lemma reads_schedule_run:
  "run example_env reads_schedule initial_sys =
     Some \<lparr>queryInProgressPromise = None, mostRecentQueryResult = Some cycle_forest,
           isInitialLoad = False,
           forestStatus = \<lparr>valid = Some True, updating = None, error = None\<rparr>,
           fetches = [Resolved cycle_forest], spawns = 1,
           tasks = [Done cycle_forest, Done cycle_forest, Done cycle_forest, Done cycle_forest],
           notifications = 1\<rparr>"
  by (simp add: reads_schedule_def initial_sys_def example_env_def query_ok_def step_def
      getForest_call_def queryForest_start_def spawn_forester_def spawn_def getRoot_def
      truthy_def updateStatusBar_def
      queryForest_finish_def resolve_outcome_def as_forest_def settle_def resume_def)

text \<open>Four reads and one query, in the example workspace.\<close>

theorem getForest_single_flight_witness:
  "plain_reads reads_schedule
   \<and> (\<exists>s. run example_env reads_schedule initial_sys = Some s
          \<and> tasks s = [Done cycle_forest, Done cycle_forest, Done cycle_forest, Done cycle_forest]
          \<and> fetches s = [Resolved cycle_forest]
          \<and> queryForest_calls s = 1 \<and> adapter_invocations s = 1 \<and> in_flight s \<le> 1)"
proof -
  have pl: "plain_reads reads_schedule" by (simp add: plain_reads_def reads_schedule_def)
  have sp: "spawn_forester example_env = None"
    by (simp add: spawn_forester_def spawn_def getRoot_def example_env_def truthy_def)
  from getForest_single_flight[OF pl reads_schedule_run] pl reads_schedule_run sp
  show ?thesis by simp
qed

text \<open>
  Claim C1 as it is stated fails where \<^verbatim>\<open>queryForest\<close> throws: its promise is
  rejected, and so is every call that awaits it. With no workspace folder open,
  \<^verbatim>\<open>getRoot\<close> throws: two reads make one call of \<^verbatim>\<open>queryForest\<close>, which spawns no
  process, and both are rejected with the error of \<^verbatim>\<open>getRoot\<close>. In the example workspace,
  a query that prints \<open>null\<close> and exits with the code 0 makes \<^verbatim>\<open>queryForest\<close> throw a
  type error after the status was set to valid: both reads are rejected with it, and
  the rejected promise stays in the promise cell.
\<close>

theorem getForest_single_flight_counterexample:
  "plain_reads rejected_schedule
   \<and> map_option (\<lambda>s. (fetches s, tasks s, queryForest_calls s, adapter_invocations s))
       (run no_folder_env rejected_schedule initial_sys) =
     Some ([Rejected (FileSystemError
                        (''vscode-forester doesn'' @ [CHR 0x27]
                         @ ''t support opening a single file.''))],
           [Failed (FileSystemError
                      (''vscode-forester doesn'' @ [CHR 0x27]
                       @ ''t support opening a single file.'')),
            Failed (FileSystemError
                      (''vscode-forester doesn'' @ [CHR 0x27]
                       @ ''t support opening a single file.''))],
           1, 0)
   \<and> plain_reads null_schedule
   \<and> map_option (\<lambda>s. (fetches s, tasks s, queryInProgressPromise s, mostRecentQueryResult s,
                        forestStatus s))
       (run example_env null_schedule initial_sys) =
     Some ([Rejected (TypeError ''Cannot convert undefined or null to object'')],
           [Failed (TypeError ''Cannot convert undefined or null to object''),
            Failed (TypeError ''Cannot convert undefined or null to object'')],
           Some 0, None, \<lparr>valid = Some True, updating = None, error = None\<rparr>)"
  by (simp add: plain_reads_def rejected_schedule_def null_schedule_def initial_sys_def
      no_folder_env_def example_env_def query_null_def step_def
      getForest_call_def queryForest_start_def spawn_forester_def spawn_def getRoot_def
      truthy_def updateStatusBar_def queryForest_calls_def adapter_invocations_def
      queryForest_finish_def resolve_outcome_def as_forest_def settle_def resume_def)

subsection \<open>A burst of file events\<close>

text \<open>
  Claim C2 does not hold of the code. Each \<^verbatim>\<open>forestUpdatedOnDisk\<close> that has awaited the
  fetch in flight goes on to call \<^verbatim>\<open>getForest\<close> with \<^verbatim>\<open>forceReload\<close>, and a forced call
  starts a fetch whatever the promise cell holds. With two file events during the
  initial query, \<^verbatim>\<open>queryForest\<close> has been called three times once the three
  continuations have run, and two fetches are then in flight at once.
\<close>

theorem burst_refetches_per_event:
  "map_option (\<lambda>s. (fetches s, tasks s, adapter_invocations s, in_flight s))
     (run example_env burst_schedule initial_sys) =
   Some ([Resolved cycle_forest, Running, Running],
         [Done cycle_forest, AwaitOwn 1, AwaitOwn 2], 3, 2)"
  by (simp add: burst_schedule_def initial_sys_def example_env_def query_ok_def step_def
      getForest_call_def forestUpdatedOnDisk_call_def queryForest_start_def
      spawn_forester_def spawn_def getRoot_def truthy_def
      updateStatusBar_def queryForest_finish_def resolve_outcome_def as_forest_def settle_def resume_def
      adapter_invocations_def in_flight_def)
subsection \<open>The fallback of a failed query\<close>

lemma adapter_failed_resolve:
  "adapter_failed e out \<longleftrightarrow> (\<exists>msg. resolve_outcome e out = Failure msg)"
  by (auto simp: adapter_failed_def resolve_outcome_def split: child_event.splits option.splits)

lemma adapter_succeeded:
  "\<not> adapter_failed e out \<longleftrightarrow>
     (\<exists>parsed. child out = Closed (Some 0) None \<and> JSON_parse e (stdout out) = Some parsed
        \<and> resolve_outcome e out = Success parsed)"
  by (auto simp: adapter_failed_def resolve_outcome_def split: child_event.splits option.splits)

lemma getForestFromBuild_Some:
  "getForestFromBuild e = Some data \<longleftrightarrow>
     (\<exists>root others content.
        workspaceFolders e = root # others
        \<and> existsSync e (path_join e root ''output'' ''forest.json'')
        \<and> readFile e (path_join e root ''output'' ''forest.json'') = Some content
        \<and> JSON_parse e content = Some (NewFormat data)
        \<and> list_all (\<lambda>t. uri t \<noteq> None) data)"
  by (auto simp: getForestFromBuild_def getRoot_def Let_def
      split: list.splits option.splits query_json.splits)

lemma spawn_forester_None:
  "spawn_forester e = None \<longleftrightarrow>
     (\<exists>root others.
        workspaceFolders e = root # others
        \<and> spawn e (case forester_path e of None \<Rightarrow> ''forester'' | Some configured \<Rightarrow> configured)
            ([''query'', ''all''] @ (if truthy (forester_config e) then [the (forester_config e)] else []))
            root = None)"
  by (auto simp: spawn_forester_def getRoot_def Let_def split: list.splits)

text \<open>
  Claim C3, amended. With no workspace folder open, \<^verbatim>\<open>queryForest\<close> throws the error of
  \<^verbatim>\<open>getRoot\<close>. With a folder open and a spawn that does not throw, it sets the status to
  updating and awaits the outcome. When the adapter has failed, \<^verbatim>\<open>queryForest\<close> returns:
  the status is invalid with the adapter's message, followed by the output and the
  error output where they are not empty, as its reason, and the forest returned is the
  first of: the cached result, if there is one; the build artifact, if the workspace
  has a folder, the file exists, can be read and parses to an array in which the uri
  of every element is a string, the empty string included; the empty forest. When the
  adapter has not failed, the process has exited with the code 0 and its output has
  parsed, the status is valid, and for an array or an object \<^verbatim>\<open>queryForest\<close> returns
  the forest made of it. It changes no cell of the cache but the status.
\<close>

theorem queryForest_fallback:
  "(workspaceFolders e = [] \<longrightarrow>
      queryForest_start e c =
        Inl (FileSystemError
               (''vscode-forester doesn'' @ [CHR 0x27] @ ''t support opening a single file.'')))
   \<and> (workspaceFolders e = root # others \<longrightarrow>
        spawn e (case forester_path e of None \<Rightarrow> ''forester'' | Some configured \<Rightarrow> configured)
          ([''query'', ''all'']
           @ (if truthy (forester_config e) then [the (forester_config e)] else []))
          root = None \<longrightarrow>
        queryForest_start e c =
          Inr (c\<lparr>forestStatus := \<lparr>valid = None, updating = Some True, error = None\<rparr>\<rparr>))
   \<and> (adapter_failed e out \<longrightarrow>
      (\<exists>msg. resolve_outcome e out = Failure msg
         \<and> forestStatus (snd (queryForest_finish e out c)) =
             \<lparr>valid = Some False, updating = None,
              error = Some (msg
                 @ (if stdout out \<noteq> [] then [CHR 0x0A, CHR 0x0A] @ stdout out else [])
                 @ (if stderr out \<noteq> [] then [CHR 0x0A, CHR 0x0A] @ stderr out else []))\<rparr>)
      \<and> fst (queryForest_finish e out c) =
          Inr (case mostRecentQueryResult c of
                 Some lastGood \<Rightarrow> lastGood
               | None \<Rightarrow> (case getForestFromBuild e of Some buildData \<Rightarrow> buildData | None \<Rightarrow> [])))
   \<and> (\<not> adapter_failed e out \<longrightarrow>
      forestStatus (snd (queryForest_finish e out c)) =
        \<lparr>valid = Some True, updating = None, error = None\<rparr>
      \<and> child out = Closed (Some 0) None
      \<and> (JSON_parse e (stdout out) = Some (NewFormat forest) \<longrightarrow>
            fst (queryForest_finish e out c) = Inr forest)
      \<and> (JSON_parse e (stdout out) = Some (OldFormat entries) \<longrightarrow>
            fst (queryForest_finish e out c) = Inr (map with_uri entries)))
   \<and> mostRecentQueryResult (snd (queryForest_finish e out c)) = mostRecentQueryResult c
   \<and> queryInProgressPromise (snd (queryForest_finish e out c)) = queryInProgressPromise c
   \<and> (getForestFromBuild e = Some data \<longleftrightarrow>
        (\<exists>root others content.
           workspaceFolders e = root # others
           \<and> existsSync e (path_join e root ''output'' ''forest.json'')
           \<and> readFile e (path_join e root ''output'' ''forest.json'') = Some content
           \<and> JSON_parse e content = Some (NewFormat data)
           \<and> list_all (\<lambda>t. uri t \<noteq> None) data))"
proof (intro conjI impI)
  assume "workspaceFolders e = []"
  then show "queryForest_start e c =
        Inl (FileSystemError
               (''vscode-forester doesn'' @ [CHR 0x27] @ ''t support opening a single file.''))"
    by (simp add: queryForest_start_def spawn_forester_def getRoot_def)
next
  assume "workspaceFolders e = root # others"
    and "spawn e (case forester_path e of None \<Rightarrow> ''forester'' | Some configured \<Rightarrow> configured)
          ([''query'', ''all'']
           @ (if truthy (forester_config e) then [the (forester_config e)] else []))
          root = None"
  then have "spawn_forester e = None"
    unfolding spawn_forester_None by blast
  then show "queryForest_start e c =
          Inr (c\<lparr>forestStatus := \<lparr>valid = None, updating = Some True, error = None\<rparr>\<rparr>)"
    by (simp add: queryForest_start_def updateStatusBar_def)
next
  assume f: "adapter_failed e out"
  then obtain msg where m: "resolve_outcome e out = Failure msg"
    by (auto simp: adapter_failed_resolve)
  then show "\<exists>msg. resolve_outcome e out = Failure msg
         \<and> forestStatus (snd (queryForest_finish e out c)) =
             \<lparr>valid = Some False, updating = None,
              error = Some (msg
                 @ (if stdout out \<noteq> [] then [CHR 0x0A, CHR 0x0A] @ stdout out else [])
                 @ (if stderr out \<noteq> [] then [CHR 0x0A, CHR 0x0A] @ stderr out else []))\<rparr>"
    by (simp add: queryForest_finish_def updateStatusBar_def Let_def)
  from m show "fst (queryForest_finish e out c) =
          Inr (case mostRecentQueryResult c of
                 Some lastGood \<Rightarrow> lastGood
               | None \<Rightarrow> (case getForestFromBuild e of Some buildData \<Rightarrow> buildData | None \<Rightarrow> []))"
    by (simp add: queryForest_finish_def updateStatusBar_def Let_def)
next
  assume nf: "\<not> adapter_failed e out"
  then obtain parsed where ch: "child out = Closed (Some 0) None"
    and js: "JSON_parse e (stdout out) = Some parsed"
    and p: "resolve_outcome e out = Success parsed"
    by (auto simp: adapter_succeeded)
  from p show "forestStatus (snd (queryForest_finish e out c)) =
        \<lparr>valid = Some True, updating = None, error = None\<rparr>"
    by (simp add: queryForest_finish_def updateStatusBar_def)
  from ch show "child out = Closed (Some 0) None" .
  { assume "JSON_parse e (stdout out) = Some (NewFormat forest)"
    with js p show "fst (queryForest_finish e out c) = Inr forest"
      by (auto simp: queryForest_finish_def as_forest_def) }
  { assume "JSON_parse e (stdout out) = Some (OldFormat entries)"
    with js p show "fst (queryForest_finish e out c) = Inr (map with_uri entries)"
      by (auto simp: queryForest_finish_def as_forest_def) }
next
  show "mostRecentQueryResult (snd (queryForest_finish e out c)) = mostRecentQueryResult c"
    by (simp add: queryForest_finish_def updateStatusBar_def Let_def split: resolution.splits)
  show "queryInProgressPromise (snd (queryForest_finish e out c)) = queryInProgressPromise c"
    by (simp add: queryForest_finish_def updateStatusBar_def Let_def split: resolution.splits)
  show "getForestFromBuild e = Some data \<longleftrightarrow>
        (\<exists>root others content.
           workspaceFolders e = root # others
           \<and> existsSync e (path_join e root ''output'' ''forest.json'')
           \<and> readFile e (path_join e root ''output'' ''forest.json'') = Some content
           \<and> JSON_parse e content = Some (NewFormat data)
           \<and> list_all (\<lambda>t. uri t \<noteq> None) data)"
    by (rule getForestFromBuild_Some)
qed

lemma example_artifact: "getForestFromBuild example_env = Some [empty_uri_tree]"
  by (simp add: getForestFromBuild_def getRoot_def example_env_def empty_uri_tree_def)

lemma bare_artifact: "getForestFromBuild bare_env = None"
  by (simp add: getForestFromBuild_def getRoot_def bare_env_def example_env_def)

text \<open>
  In the example workspace the query starts. A query that times out with nothing
  cached and no artifact gives the empty forest and the status \<open>invalid\<close> with the
  reason of the timeout; with the cycle's forest cached it gives that forest; a query
  that succeeds gives its parsed output. Without a folder the query does not start.
\<close>

theorem queryForest_fallback_witness:
  "workspaceFolders example_env = [''/ws'']
   \<and> spawn example_env ''forester'' [''query'', ''all''] ''/ws'' = None
   \<and> queryForest_start example_env initial_sys =
       Inr (initial_sys\<lparr>forestStatus := \<lparr>valid = None, updating = Some True, error = None\<rparr>\<rparr>)
   \<and> adapter_failed bare_env query_timed_out
   \<and> queryForest_finish bare_env query_timed_out initial_sys =
       (Inr [], initial_sys\<lparr>forestStatus :=
                  \<lparr>valid = Some False, updating = None,
                   error = Some ''Forester timed out after 30s''\<rparr>\<rparr>)
   \<and> fst (queryForest_finish bare_env query_timed_out
            (initial_sys\<lparr>mostRecentQueryResult := Some cycle_forest\<rparr>)) = Inr cycle_forest
   \<and> \<not> adapter_failed example_env query_ok
   \<and> fst (queryForest_finish example_env query_ok initial_sys) = Inr cycle_forest
   \<and> forestStatus (snd (queryForest_finish example_env query_ok initial_sys)) =
       \<lparr>valid = Some True, updating = None, error = None\<rparr>
   \<and> workspaceFolders no_folder_env = []
   \<and> queryForest_start no_folder_env initial_sys =
       Inl (FileSystemError
              (''vscode-forester doesn'' @ [CHR 0x27] @ ''t support opening a single file.''))"
proof -
  have f: "adapter_failed bare_env query_timed_out"
    by (simp add: adapter_failed_def query_timed_out_def)
  have r: "resolve_outcome bare_env query_timed_out = Failure ''Forester timed out after 30s''"
    by (simp add: resolve_outcome_def query_timed_out_def)
  have so: "stdout query_timed_out = []" "stderr query_timed_out = []"
    by (simp_all add: query_timed_out_def)
  have none: "mostRecentQueryResult initial_sys = None" by (simp add: initial_sys_def)
  have other: "snd (queryForest_finish bare_env query_timed_out initial_sys) =
      initial_sys\<lparr>forestStatus := forestStatus (snd (queryForest_finish bare_env query_timed_out initial_sys))\<rparr>"
    by (simp add: queryForest_finish_def updateStatusBar_def Let_def r)
  have 1: "queryForest_finish bare_env query_timed_out initial_sys =
       (Inr [], initial_sys\<lparr>forestStatus :=
                  \<lparr>valid = Some False, updating = None,
                   error = Some ''Forester timed out after 30s''\<rparr>\<rparr>)"
    using queryForest_fallback[where e = bare_env and c = initial_sys and out = query_timed_out] f r so none
      bare_artifact other
    by (cases "queryForest_finish bare_env query_timed_out initial_sys") simp
  have 2: "fst (queryForest_finish bare_env query_timed_out
            (initial_sys\<lparr>mostRecentQueryResult := Some cycle_forest\<rparr>)) = Inr cycle_forest"
    using queryForest_fallback[where e = bare_env and out = query_timed_out
        and c = "initial_sys\<lparr>mostRecentQueryResult := Some cycle_forest\<rparr>"] f
    by simp
  have nf: "\<not> adapter_failed example_env query_ok"
    by (simp add: adapter_failed_def query_ok_def example_env_def)
  have p: "JSON_parse example_env (stdout query_ok) = Some (NewFormat cycle_forest)"
    by (simp add: query_ok_def example_env_def)
  have 3: "fst (queryForest_finish example_env query_ok initial_sys) = Inr cycle_forest
      \<and> forestStatus (snd (queryForest_finish example_env query_ok initial_sys)) =
       \<lparr>valid = Some True, updating = None, error = None\<rparr>"
    using queryForest_fallback[where e = example_env and c = initial_sys and out = query_ok
        and forest = cycle_forest] nf p
    by simp
  have ws: "workspaceFolders example_env = [''/ws'']"
    and cfg: "forester_path example_env = None" "forester_config example_env = None"
    and sp: "spawn example_env ''forester'' [''query'', ''all''] ''/ws'' = None"
    by (simp_all add: example_env_def spawn_def)
  have 4: "queryForest_start example_env initial_sys =
       Inr (initial_sys\<lparr>forestStatus := \<lparr>valid = None, updating = Some True, error = None\<rparr>\<rparr>)"
    using queryForest_fallback[where e = example_env and root = "''/ws''" and others = "[]"
        and c = initial_sys] ws cfg sp
    by (simp add: truthy_def)
  have nw: "workspaceFolders no_folder_env = []"
    by (simp add: no_folder_env_def)
  have 5: "queryForest_start no_folder_env initial_sys =
       Inl (FileSystemError
              (''vscode-forester doesn'' @ [CHR 0x27] @ ''t support opening a single file.''))"
    using queryForest_fallback[where e = no_folder_env and c = initial_sys] nw by simp
  from ws sp 4 f 1 2 nf 3 nw 5 show ?thesis by simp
qed

text \<open>
  Claim C3 as it is stated fails in four ways. The artifact of the example workspace
  is an array whose only element has the empty string as its uri: the query times out
  with nothing cached, and \<^verbatim>\<open>queryForest\<close> returns that array, not the empty forest.
  And \<^verbatim>\<open>queryForest\<close> throws to its caller: the error of \<^verbatim>\<open>getRoot\<close> with no workspace
  folder open; the type error of the spawn where the setting \<^verbatim>\<open>forester.path\<close> is the
  empty string; and, where the process prints \<open>null\<close> and exits with the code 0, the
  type error of \<^verbatim>\<open>Object.entries\<close>, after it has set the status to valid.
\<close>

theorem queryForest_fallback_counterexample:
  "adapter_failed example_env query_timed_out
   \<and> mostRecentQueryResult initial_sys = None
   \<and> fst (queryForest_finish example_env query_timed_out initial_sys) = Inr [empty_uri_tree]
   \<and> uri empty_uri_tree = Some []
   \<and> queryForest_start no_folder_env initial_sys =
       Inl (FileSystemError
              (''vscode-forester doesn'' @ [CHR 0x27] @ ''t support opening a single file.''))
   \<and> forester_path empty_path_env = Some []
   \<and> queryForest_start empty_path_env initial_sys =
       Inl (TypeError (''The argument '' @ [CHR 0x27] @ ''file'' @ [CHR 0x27]
                       @ '' cannot be empty. Received '' @ [CHR 0x27, CHR 0x27]))
   \<and> query_null = \<lparr>child = Closed (Some 0) None, stdout = ''null'', stderr = []\<rparr>
   \<and> JSON_parse example_env ''null'' = Some JsonNull
   \<and> queryForest_finish example_env query_null initial_sys =
       (Inl (TypeError ''Cannot convert undefined or null to object''),
        initial_sys\<lparr>forestStatus := \<lparr>valid = Some True, updating = None, error = None\<rparr>\<rparr>)"
proof -
  have 1: "adapter_failed example_env query_timed_out \<and> mostRecentQueryResult initial_sys = None
      \<and> fst (queryForest_finish example_env query_timed_out initial_sys) = Inr [empty_uri_tree]"
    by (simp add: adapter_failed_def query_timed_out_def initial_sys_def
        queryForest_finish_def resolve_outcome_def updateStatusBar_def example_artifact)
  have 2: "uri empty_uri_tree = Some []" by (simp add: empty_uri_tree_def)
  have 3: "queryForest_start no_folder_env initial_sys =
       Inl (FileSystemError
              (''vscode-forester doesn'' @ [CHR 0x27] @ ''t support opening a single file.''))"
    by (simp add: queryForest_start_def spawn_forester_def getRoot_def no_folder_env_def)
  have 4: "forester_path empty_path_env = Some []
      \<and> queryForest_start empty_path_env initial_sys =
       Inl (TypeError (''The argument '' @ [CHR 0x27] @ ''file'' @ [CHR 0x27]
                       @ '' cannot be empty. Received '' @ [CHR 0x27, CHR 0x27]))"
    by (simp add: queryForest_start_def spawn_forester_def spawn_def getRoot_def
        empty_path_env_def example_env_def)
  have 5: "query_null = \<lparr>child = Closed (Some 0) None, stdout = ''null'', stderr = []\<rparr>
      \<and> JSON_parse example_env ''null'' = Some JsonNull
      \<and> queryForest_finish example_env query_null initial_sys =
       (Inl (TypeError ''Cannot convert undefined or null to object''),
        initial_sys\<lparr>forestStatus := \<lparr>valid = Some True, updating = None, error = None\<rparr>\<rparr>)"
    by (simp add: query_null_def example_env_def queryForest_finish_def resolve_outcome_def
        as_forest_def updateStatusBar_def)
  from 1 2 3 4 5 show ?thesis by simp
qed

subsection \<open>\<^verbatim>\<open>buildGraph\<close> and entries without a uri\<close>

text \<open>
  Claim C10. Whenever an entry of the forest has no uri or the empty string as its
  uri, \<^verbatim>\<open>buildGraph\<close> throws the error \<open>Unexpected lack of uri\<close>: the rebuild stops at
  the first such entry, so the map holds nodes for the uris of the entries before it
  and for no other, none of these nodes has an edge, and the roots, the expanded
  nodes and the pinned roots stay as they were. When every entry has a uri that is
  not empty, \<^verbatim>\<open>buildGraph\<close> completes without throwing. A forest of the first kind can
  come from the cache: \<^verbatim>\<open>getForestFromBuild\<close> returns an artifact with an element
  whose uri is the empty string, and \<^verbatim>\<open>buildGraph\<close> throws on it.
\<close>

theorem buildGraph_uri_check:
  "(list_ex (\<lambda>entry. \<not> truthy (uri entry)) forestData \<longrightarrow>
      fst (buildGraph cfg readFileSync cur forestData p) = Some (Error ''Unexpected lack of uri'')
      \<and> fst ` set (nodes (snd (buildGraph cfg readFileSync cur forestData p)))
          = (\<lambda>entry. the (uri entry)) ` set (takeWhile (\<lambda>entry. truthy (uri entry)) forestData)
      \<and> (\<forall>k n. map_of (nodes (snd (buildGraph cfg readFileSync cur forestData p))) k = Some n
            \<longrightarrow> transcludes n = [] \<and> transcludedBy n = [])
      \<and> currentRootIds (snd (buildGraph cfg readFileSync cur forestData p)) = currentRootIds p
      \<and> expandedNodes (snd (buildGraph cfg readFileSync cur forestData p)) = expandedNodes p
      \<and> pinnedRootIds (snd (buildGraph cfg readFileSync cur forestData p)) = pinnedRootIds p)
   \<and> (list_all (\<lambda>entry. truthy (uri entry)) forestData \<longrightarrow>
        fst (buildGraph cfg readFileSync cur forestData p) = None)
   \<and> (getForestFromBuild e = Some data \<longrightarrow> list_ex (\<lambda>entry. uri entry = Some []) data \<longrightarrow>
        fst (buildGraph cfg readFileSync cur data p) = Some (Error ''Unexpected lack of uri''))"
proof (intro conjI impI)
  assume "list_ex (\<lambda>entry. \<not> truthy (uri entry)) forestData"
  then have bad: "\<not> list_all (\<lambda>e. truthy (uri e)) forestData"
    by (auto simp: list_ex_iff list_all_iff)
  note bg = buildGraph_throws[OF bad, of cfg readFileSync cur p]
  from bg show "fst (buildGraph cfg readFileSync cur forestData p)
      = Some (Error ''Unexpected lack of uri'')" by simp
  from bg resolutionMap_keys[of cfg forestData "[]"]
  show "fst ` set (nodes (snd (buildGraph cfg readFileSync cur forestData p)))
          = (\<lambda>entry. the (uri entry)) ` set (takeWhile (\<lambda>entry. truthy (uri entry)) forestData)"
    by simp
  show "\<forall>k n. map_of (nodes (snd (buildGraph cfg readFileSync cur forestData p))) k = Some n
            \<longrightarrow> transcludes n = [] \<and> transcludedBy n = []"
  proof (intro allI impI)
    fix k n
    assume "map_of (nodes (snd (buildGraph cfg readFileSync cur forestData p))) k = Some n"
    with bg have "map_of (snd (resolutionMap cfg forestData [])) k = Some n" by simp
    from resolutionMap_nodes[OF this] obtain entry where "n = makeNode cfg entry k" by auto
    then show "transcludes n = [] \<and> transcludedBy n = []"
      by (simp add: makeNode_def Let_def)
  qed
  from bg show "currentRootIds (snd (buildGraph cfg readFileSync cur forestData p)) = currentRootIds p"
    and "expandedNodes (snd (buildGraph cfg readFileSync cur forestData p)) = expandedNodes p"
    and "pinnedRootIds (snd (buildGraph cfg readFileSync cur forestData p)) = pinnedRootIds p"
    by simp_all
next
  assume "list_all (\<lambda>entry. truthy (uri entry)) forestData"
  then show "fst (buildGraph cfg readFileSync cur forestData p) = None"
    by (rule buildGraph_completes)
next
  assume "getForestFromBuild e = Some data" and "list_ex (\<lambda>entry. uri entry = Some []) data"
  then obtain entry where "entry \<in> set data" and "uri entry = Some []"
    by (auto simp: list_ex_iff)
  then have "\<not> list_all (\<lambda>e. truthy (uri e)) data"
    by (auto simp: list_all_iff truthy_def intro!: bexI[of _ entry])
  from buildGraph_throws[OF this, of cfg readFileSync cur p]
  show "fst (buildGraph cfg readFileSync cur data p) = Some (Error ''Unexpected lack of uri'')"
    by simp
qed

text \<open>
  The forest of A, a tree with the empty uri, and B stops the rebuild after A; the
  forest of the cycle is built; the artifact of the example workspace is accepted by
  \<^verbatim>\<open>getForestFromBuild\<close> and refused by \<^verbatim>\<open>buildGraph\<close>.
\<close>

theorem buildGraph_uri_check_witness:
  "list_ex (\<lambda>entry. \<not> truthy (uri entry)) [plain_tree ''A'', empty_uri_tree, plain_tree ''B'']
   \<and> fst (buildGraph [] cycle_files None
             [plain_tree ''A'', empty_uri_tree, plain_tree ''B''] initial_provider)
       = Some (Error ''Unexpected lack of uri'')
   \<and> fst ` set (nodes (snd (buildGraph [] cycle_files None
             [plain_tree ''A'', empty_uri_tree, plain_tree ''B''] initial_provider))) = {''A''}
   \<and> list_all (\<lambda>entry. truthy (uri entry)) cycle_forest
   \<and> fst (buildGraph [] cycle_files (Some ''A'') cycle_forest initial_provider) = None
   \<and> getForestFromBuild example_env = Some [empty_uri_tree]
   \<and> list_ex (\<lambda>entry. uri entry = Some []) [empty_uri_tree]
   \<and> fst (buildGraph [] cycle_files None [empty_uri_tree] initial_provider)
       = Some (Error ''Unexpected lack of uri'')"
proof -
  let ?bad = "[plain_tree ''A'', empty_uri_tree, plain_tree ''B'']"
  have ex: "list_ex (\<lambda>entry. \<not> truthy (uri entry)) ?bad"
    by (simp add: plain_tree_def empty_uri_tree_def truthy_def)
  have tw: "(\<lambda>entry. the (uri entry)) ` set (takeWhile (\<lambda>entry. truthy (uri entry)) ?bad) = {''A''}"
    by (simp add: plain_tree_def empty_uri_tree_def truthy_def)
  have all: "list_all (\<lambda>entry. truthy (uri entry)) cycle_forest"
    by (simp add: cycle_forest_def plain_tree_def truthy_def)
  have ex2: "list_ex (\<lambda>entry. uri entry = Some []) [empty_uri_tree]"
    by (simp add: empty_uri_tree_def)
  from buildGraph_uri_check[of ?bad "[]" cycle_files None initial_provider] ex tw
  have 1: "fst (buildGraph [] cycle_files None ?bad initial_provider)
        = Some (Error ''Unexpected lack of uri'')
      \<and> fst ` set (nodes (snd (buildGraph [] cycle_files None ?bad initial_provider))) = {''A''}"
    by simp
  from buildGraph_uri_check[of cycle_forest "[]" cycle_files "Some ''A''" initial_provider] all
  have 2: "fst (buildGraph [] cycle_files (Some ''A'') cycle_forest initial_provider) = None"
    by simp
  from buildGraph_uri_check[of _ "[]" cycle_files None initial_provider example_env
      "[empty_uri_tree]"] example_artifact ex2
  have 3: "fst (buildGraph [] cycle_files None [empty_uri_tree] initial_provider)
        = Some (Error ''Unexpected lack of uri'')"
    by simp
  from ex 1 all 2 example_artifact ex2 3 show ?thesis by simp
qed

section \<open>Further properties\<close>

subsection \<open>Pinned roots are never repeated\<close>

lemma autoPin_distinct:
  "distinct (pinnedRootIds p) \<Longrightarrow> distinct (pinnedRootIds (snd (autoPinOnInteraction nodeId p)))"
  by (auto simp: autoPinOnInteraction_def split: option.splits)

text \<open>
  Every message and command that changes the pinned roots keeps them free of
  repetitions, and \<^verbatim>\<open>buildGraph\<close> does not change them: each of them appends a root
  only after testing that it is not pinned.
\<close>

theorem pinned_roots_stay_distinct:
  "distinct (pinnedRootIds p) \<longrightarrow>
     distinct (pinnedRootIds (snd (onToggle nodeId p)))
     \<and> distinct (pinnedRootIds (snd (onOpenFile nodeId p)))
     \<and> distinct (pinnedRootIds (snd (onTogglePin nodeId p)))
     \<and> distinct (pinnedRootIds (snd (pinToCurrentFile editorTreeId p)))
     \<and> distinct (pinnedRootIds (snd (unpin p)))
     \<and> pinnedRootIds (snd (buildGraph cfg readFileSync cur forestData p)) = pinnedRootIds p"
proof (intro impI conjI)
  assume d: "distinct (pinnedRootIds p)"
  have a: "\<And>q. pinnedRootIds q = pinnedRootIds p \<Longrightarrow>
      distinct (pinnedRootIds (snd (autoPinOnInteraction nodeId q)))"
    using d by (simp add: autoPin_distinct)
  show "distinct (pinnedRootIds (snd (onToggle nodeId p)))"
    using a[of "p\<lparr>expandedNodes := removeAll nodeId (expandedNodes p)\<rparr>"]
      a[of "p\<lparr>expandedNodes := expandedNodes p @ [nodeId]\<rparr>"]
    by (auto simp: onToggle_def Let_def saveState_def split: prod.splits)
  show "distinct (pinnedRootIds (snd (onOpenFile nodeId p)))"
    using a[of "p\<lparr>selectedNodeId := Some nodeId\<rparr>"]
      a[of "p\<lparr>expandedNodes := set_add nodeId (expandedNodes p), selectedNodeId := Some nodeId\<rparr>"]
    by (auto simp: onOpenFile_def Let_def saveState_def split: prod.splits option.splits)
  show "distinct (pinnedRootIds (snd (onTogglePin nodeId p)))"
    using d by (auto simp: onTogglePin_def Let_def saveState_def)
  show "distinct (pinnedRootIds (snd (pinToCurrentFile editorTreeId p)))"
    using d by (auto simp: pinToCurrentFile_def Let_def saveState_def split: option.splits)
  show "distinct (pinnedRootIds (snd (unpin p)))"
    using d by (auto simp: unpin_def Let_def saveState_def distinct_butlast)
  show "pinnedRootIds (snd (buildGraph cfg readFileSync cur forestData p)) = pinnedRootIds p"
    by (auto simp: buildGraph_def Let_def expandOnInitialLoad_def split: prod.splits option.splits)
qed

text \<open>With the ten example roots pinned, which are distinct, each operation leaves
  distinct pinned roots.\<close>

theorem pinned_roots_stay_distinct_witness:
  "distinct (pinnedRootIds (example_provider ten_roots (ten_roots @ [''D''])))
   \<and> distinct (pinnedRootIds (snd (onToggle ''D'' (example_provider ten_roots (ten_roots @ [''D''])))))
   \<and> distinct (pinnedRootIds (snd (onTogglePin ''A'' (example_provider ten_roots (ten_roots @ [''D''])))))
   \<and> distinct (pinnedRootIds (snd (unpin (example_provider ten_roots (ten_roots @ [''D''])))))"
proof -
  have d: "distinct (pinnedRootIds (example_provider ten_roots (ten_roots @ [''D''])))"
    by (simp add: example_provider_def ten_roots_def nine_roots_def)
  from pinned_roots_stay_distinct[of "example_provider ten_roots (ten_roots @ [''D''])" "''D''"] d
  have 1: "distinct (pinnedRootIds (snd (onToggle ''D''
      (example_provider ten_roots (ten_roots @ [''D''])))))"
    and 3: "distinct (pinnedRootIds (snd (unpin (example_provider ten_roots (ten_roots @ [''D''])))))"
    by simp_all
  from pinned_roots_stay_distinct[of "example_provider ten_roots (ten_roots @ [''D''])" "''A''"] d
  have 2: "distinct (pinnedRootIds (snd (onTogglePin ''A''
      (example_provider ten_roots (ten_roots @ [''D''])))))"
    by simp
  from d 1 2 3 show ?thesis by simp
qed

subsection \<open>The scenario of two trees\<close>

text \<open>
  For the forest of the theorem a, titled Intro, whose text transcludes b, and of b,
  titled Lemma 1: \<^verbatim>\<open>buildGraph\<close> gives a the edge to b and b the edge back from a, and
  the rendering shows a at depth 0 with the prefix of its taxon and b at depth 1
  without a prefix.
\<close>

theorem scenario_rendering:
  "map_option transcludes (map_of (nodes (snd (buildGraph [] scenario_files (Some ''a'')
       scenario_forest initial_provider))) ''a'') = Some [''b'']
   \<and> map_option transcludedBy (map_of (nodes (snd (buildGraph [] scenario_files (Some ''a'')
       scenario_forest initial_provider))) ''b'') = Some [''a'']
   \<and> getTreeHtml (snd (buildGraph [] scenario_files (Some ''a'') scenario_forest
       initial_provider)) =
       Some [TreeRow ''a'' 0 ''thm: intro'' False True True (Some False),
             TreeRow ''b'' 1 ''lemma 1'' False False False None]"
  by (simp add: scenario_built getTreeHtml_def renderNode.simps titleOr_def
      toLowerCase_def toLowerCase_char_def upper_case_def lower_case_def)

end
